theory Spec2Isabelle
  imports Main "HOL-Library.Word"
begin

unbundle bit_operations_syntax

section \<open>Packed DNA\<close>

text \<open>
  A packed sequence (\<open>CompDNA\<close>): two bits per base, 32 bases per 64-bit word with the
  first base in the two highest bits; \<open>N\<close> is the table of ambiguous positions with the
  count in slot 0.  C arrays are lists here.  A read outside the list (undefined in C)
  yields zero: the buffers carry a zeroed trailing slot, and every concrete input below
  keeps all reads inside the lists.
\<close>

type_synonym u64 = "64 word"

record CompDNA =
  seqlen :: int
  complen :: int
  seq :: "u64 list"
  N :: "int list"

definition word_at :: "u64 list \<Rightarrow> int \<Rightarrow> u64" where
  "word_at ws i = (if 0 \<le> i \<and> i < int (length ws) then ws ! nat i else 0)"

definition int_at :: "int list \<Rightarrow> int \<Rightarrow> int" where
  "int_at xs i = (if 0 \<le> i \<and> i < int (length xs) then xs ! nat i else 0)"

text \<open>
  Modelled from the spec: the macros \<open>getKmer_macro\<close>, \<open>getNuc\<close> and
  \<open>updateKmer_macro\<close> of \<open>compdna.h\<close> are not among the sources.  Section 4.1 of the
  specification gives \<open>get_kmer(pos, shifter)\<close> as the k-mer starting at base \<open>pos\<close>,
  low-order bits significant after shifting right by \<open>shifter\<close>, combining two
  consecutive words where the k-mer spans a word boundary; section 4.3 gives the update
  \<open>kmer = ((kmer << 2) | base) & mask\<close>.
\<close>

definition getKmer :: "u64 list \<Rightarrow> int \<Rightarrow> nat \<Rightarrow> u64" where
  "getKmer Comp pos shifter =
     (let iPos = 2 * nat (pos mod 32); cPos = pos div 32 in
      if iPos \<le> shifter
      then drop_bit shifter (push_bit iPos (word_at Comp cPos))
      else drop_bit shifter
             (push_bit iPos (word_at Comp cPos) OR drop_bit (64 - iPos) (word_at Comp (cPos + 1))))"

definition getNuc :: "u64 list \<Rightarrow> int \<Rightarrow> u64" where
  "getNuc Comp pos = drop_bit 62 (push_bit (2 * nat (pos mod 32)) (word_at Comp (pos div 32)))"

definition updateKmer :: "u64 \<Rightarrow> u64 list \<Rightarrow> int \<Rightarrow> u64 \<Rightarrow> u64" where
  "updateKmer kmer Comp pos msk = (push_bit 2 kmer OR getNuc Comp pos) AND msk"

section \<open>The exact matcher\<close>

text \<open>
  \<open>reassign_getoffset\<close>: the first offset at or after \<open>offset\<close>, below \<open>seqlen\<close>, where
  the 32 bases of the consensus read as one word equal \<open>kmer\<close>; \<open>-1\<close> when there is none.
\<close>

function getoffset_while :: "CompDNA \<Rightarrow> u64 \<Rightarrow> u64 \<Rightarrow> int \<Rightarrow> u64 \<times> int" where
  "getoffset_while qseq kmer qmer offset =
     (if qmer \<noteq> kmer \<and> offset + 1 < seqlen qseq
      then getoffset_while qseq kmer (getKmer (seq qseq) (offset + 1) 0) (offset + 1)
      else (qmer, if qmer \<noteq> kmer then offset + 1 else offset))"
  by pat_completeness auto
termination
  by (relation "measure (\<lambda>(qseq, kmer, qmer, offset). nat (seqlen qseq - offset))") auto

definition reassign_getoffset :: "CompDNA \<Rightarrow> u64 \<Rightarrow> int \<Rightarrow> int" where
  "reassign_getoffset qseq kmer offset =
     (case getoffset_while qseq kmer (kmer + 1) (offset - 1) of
        (qmer, off) \<Rightarrow> if qmer = kmer then off else - 1)"

text \<open>
  \<open>reassign_cmpseqs\<close>: \<open>complen\<close> is a signed count.  When it is positive the word loop
  \<open>while(--complen)\<close> runs \<open>complen - 1\<close> times, then the remainder \<open>len & 31\<close> is
  compared under a mask.  For \<open>len \<le> 0\<close> the count is zero or negative, the count-down
  does not come to zero, and the loop ends only at the first pair of words that differ,
  with \<open>-1\<close> or \<open>1\<close>.  Reads outside the lists being zero, no pair differs beyond the
  longer list: \<open>None\<close> is the call whose loop does not end there.
\<close>

fun cmpseqs_words :: "u64 list \<Rightarrow> u64 list \<Rightarrow> nat \<Rightarrow> int \<Rightarrow> int \<Rightarrow> int + (int \<times> int)" where
  "cmpseqs_words qseq target 0 ti offset = Inr (ti, offset)"
| "cmpseqs_words qseq target (Suc n) ti offset =
     (let kmer = getKmer qseq offset 0 in
      if word_at target ti \<noteq> kmer
      then Inl (if word_at target ti < kmer then - 1 else 1)
      else cmpseqs_words qseq target n (ti + 1) (offset + 32))"

definition reassign_cmpseqs :: "u64 list \<Rightarrow> u64 list \<Rightarrow> int \<Rightarrow> int \<Rightarrow> int option" where
  "reassign_cmpseqs qseq target len offset =
     (if offset < 0 then Some (- 1)
      else
        let complen = len div 32 + (if len mod 32 \<noteq> 0 then 1 else 0) in
        if complen \<le> 0
        then (case cmpseqs_words qseq target (max (length qseq) (length target)) 0 offset of
                Inl r \<Rightarrow> Some r
              | Inr x \<Rightarrow> None)
        else
        case cmpseqs_words qseq target (nat (complen - 1)) 0 offset of
          Inl r \<Rightarrow> Some r
        | Inr (ti, off) \<Rightarrow>
            if len mod 32 \<noteq> 0
            then
              let sh = nat (64 - 2 * (len mod 32));
                  kmer = push_bit sh (getKmer qseq off sh)
              in if word_at target ti \<noteq> kmer
                 then Some (if word_at target ti < kmer then - 1 else 1)
                 else Some 0
            else Some 0)"

text \<open>
  \<open>reassign_testNs\<close>: the first entry of the \<open>N\<close> table strictly between \<open>start\<close> and
  \<open>end\<close>, scanning while the entries stay below \<open>end\<close>; 0 when there is none.
\<close>

fun testNs_while :: "int list \<Rightarrow> int \<Rightarrow> int \<Rightarrow> nat \<Rightarrow> int \<Rightarrow> int" where
  "testNs_while Ns start e 0 i = 0"
| "testNs_while Ns start e (Suc n) i =
     (if int_at Ns i < e
      then (if start < int_at Ns i \<and> int_at Ns i < e then int_at Ns i
            else testNs_while Ns start e n (i + 1))
      else 0)"

definition reassign_testNs :: "int list \<Rightarrow> int \<Rightarrow> int \<Rightarrow> int" where
  "reassign_testNs Ns start e = testNs_while Ns start e (nat (int_at Ns 0)) 1"

text \<open>
  \<open>reassign_matchseqs\<close>.  The first loop walks the \<open>N\<close> table for a stretch that can hold
  the candidate (\<open>None\<close> is its early \<open>return -1\<close>).  The second loop seeks the leading
  word, extends, and tests for \<open>N\<close>s; nothing bounds its number of rounds in the source,
  so it is a partial function and \<open>None\<close> stands for a call that does not return.
\<close>

fun matchseqs_Ns :: "CompDNA \<Rightarrow> CompDNA \<Rightarrow> nat \<Rightarrow> int \<Rightarrow> int \<Rightarrow> int option" where
  "matchseqs_Ns consensus qseq 0 i start = Some start"
| "matchseqs_Ns consensus qseq (Suc n) i start =
     (if seqlen qseq \<le> int_at (N consensus) i - start then Some start
      else if seqlen consensus - int_at (N consensus) i < seqlen qseq then None
      else matchseqs_Ns consensus qseq n (i + 1) (int_at (N consensus) i + 1))"

partial_function (option) matchseqs_while :: "CompDNA \<Rightarrow> CompDNA \<Rightarrow> int \<Rightarrow> int \<Rightarrow> int option" where
  "matchseqs_while consensus qseq match start =
     (if match \<noteq> 0 \<and> 0 \<le> start + 1 \<and> seqlen qseq \<le> seqlen consensus - (start + 1)
      then
        let m = reassign_getoffset consensus (word_at (seq qseq) 0) (start + 1);
            start1 = (if 0 \<le> m then m else seqlen qseq)
        in case reassign_cmpseqs (seq consensus) (seq qseq) (seqlen qseq) start1 of
             None \<Rightarrow> None
           | Some match1 \<Rightarrow>
               if match1 = 0
               then
                 let match2 = reassign_testNs (N consensus) start1 (start1 + seqlen qseq)
                 in if match2 \<noteq> 0 then matchseqs_while consensus qseq match2 match2
                    else matchseqs_while consensus qseq 0 start1
               else matchseqs_while consensus qseq match1 start1
      else Some (if match \<noteq> 0 then - 1 else start))"

declare matchseqs_while.simps [code]

definition reassign_matchseqs :: "CompDNA \<Rightarrow> CompDNA \<Rightarrow> int option" where
  "reassign_matchseqs consensus qseq =
     (case matchseqs_Ns consensus qseq (nat (int_at (N consensus) 0)) 1 0 of
        None \<Rightarrow> Some (- 1)
      | Some start \<Rightarrow> matchseqs_while consensus qseq 1 (start - 1))"



subsection \<open>What the matcher is asked to do\<close>

text \<open>
  \<open>drawn_from c q k\<close>: the candidate \<open>q\<close> is the packed copy of the bases
  \<open>k, ..., k + |q| - 1\<close> of \<open>c\<close>: each of its words holds the next (at most 32) bases
  of \<open>c\<close>, first base highest, zero below.  \<open>placements c q\<close>: the offsets at which
  \<open>q\<close> is drawn from \<open>c\<close>.  \<open>N_free c a b\<close>: no entry of the \<open>N\<close> table of \<open>c\<close> lies
  in \<open>[a, b)\<close>.
\<close>

definition subseq_word :: "u64 list \<Rightarrow> int \<Rightarrow> int \<Rightarrow> u64" where
  "subseq_word Comp p n = (let sh = nat (64 - 2 * n) in push_bit sh (getKmer Comp p sh))"

definition drawn_from :: "CompDNA \<Rightarrow> CompDNA \<Rightarrow> int \<Rightarrow> bool" where
  "drawn_from c q k \<longleftrightarrow>
     0 \<le> k \<and> 0 < seqlen q \<and> k + seqlen q \<le> seqlen c \<and>
     list_all
       (\<lambda>w. word_at (seq q) w = subseq_word (seq c) (k + 32 * w) (min 32 (seqlen q - 32 * w)))
       [0..(seqlen q + 31) div 32 - 1]"

definition placements :: "CompDNA \<Rightarrow> CompDNA \<Rightarrow> int list" where
  "placements c q = filter (drawn_from c q) [0..seqlen c - seqlen q]"

definition N_free :: "CompDNA \<Rightarrow> int \<Rightarrow> int \<Rightarrow> bool" where
  "N_free c a b \<longleftrightarrow>
     list_all (\<lambda>i. \<not> (a \<le> int_at (N c) i \<and> int_at (N c) i < b)) [1..int_at (N c) 0]"

text \<open>Concrete sequences (A = 0, C = 1, G = 2, T = 3; an \<open>N\<close> is stored as A).\<close>

definition cons_A64 :: CompDNA where
  "cons_A64 = \<lparr>seqlen = 64, complen = 2, seq = [0, 0, 0], N = [0, 0]\<rparr>"

definition cand_A32C32 :: CompDNA where
  "cand_A32C32 = \<lparr>seqlen = 64, complen = 2, seq = [0, 0x5555555555555555, 0], N = [0, 0]\<rparr>"

text \<open>\<open>AAAA\<close>, 20 \<open>C\<close>, 6 \<open>G\<close>; and 20 \<open>C\<close>.\<close>

definition cons_A4_C20_G6 :: CompDNA where
  "cons_A4_C20_G6 = \<lparr>seqlen = 30, complen = 1, seq = [0x005555555555AAA0, 0], N = [0, 0]\<rparr>"

definition cand_C20 :: CompDNA where
  "cand_C20 = \<lparr>seqlen = 20, complen = 1, seq = [0x5555555555000000, 0], N = [0, 0]\<rparr>"

text \<open>40 \<open>C\<close>, an \<open>N\<close> at position 40, 39 \<open>A\<close>; and 40 \<open>A\<close>.\<close>

definition cons_C40_N_A39 :: CompDNA where
  "cons_C40_N_A39 =
     \<lparr>seqlen = 80, complen = 3,
      seq = [0x5555555555555555, 0x5555000000000000, 0, 0], N = [1, 40, 0]\<rparr>"

definition cand_A40 :: CompDNA where
  "cand_A40 = \<lparr>seqlen = 40, complen = 2, seq = [0, 0, 0], N = [0, 0]\<rparr>"




subsection \<open>The matcher at concrete inputs\<close>

text \<open>
  C1 at two concrete inputs.  First: the candidate, 20 \<open>C\<close>, is drawn from the
  consensus \<open>AAAA\<close>, 20 \<open>C\<close>, 6 \<open>G\<close> at offset 4 and at no other offset, and the
  consensus holds no \<open>N\<close>; the matcher returns \<open>-1\<close>, not 4.  \<open>reassign_getoffset\<close> seeks
  the whole leading word of the candidate, its 20 bases followed by zeros, among the
  32-base reads of the consensus, and the read at offset 4 goes on with the 6 \<open>G\<close>.
  Second: the candidate, 40 \<open>A\<close>, is drawn from the consensus 40 \<open>C\<close>, \<open>N\<close>, 39 \<open>A\<close> at
  offset 40 only, a placement that begins on the \<open>N\<close>; the matcher returns 40, not
  \<open>-1\<close>.  \<open>reassign_testNs\<close> tests \<open>start < *N\<close> strictly, so an \<open>N\<close> on the first base
  of a placement is not seen.
\<close>

theorem C1_matchseqs_misses_placement:
  "placements cons_A4_C20_G6 cand_C20 = [4] \<and>
   N_free cons_A4_C20_G6 4 (4 + seqlen cand_C20) \<and>
   reassign_matchseqs cons_A4_C20_G6 cand_C20 = Some (- 1) \<and>
   placements cons_C40_N_A39 cand_A40 = [40] \<and>
   \<not> N_free cons_C40_N_A39 40 (40 + seqlen cand_A40) \<and>
   reassign_matchseqs cons_C40_N_A39 cand_A40 = Some 40"
  by code_simp

text \<open>
  C10 at a concrete input: the candidate is 32 \<open>A\<close> followed by 32 \<open>C\<close>, the consensus 64
  \<open>A\<close>.  The matcher reports offset 0 although base 32 of the two differs: for a length
  that is a multiple of 32 the word loop of \<open>reassign_cmpseqs\<close> stops one word early and
  no remainder is compared.
\<close>

theorem C10_matchseqs_accepts_mismatch:
  "reassign_matchseqs cons_A64 cand_A32C32 = Some 0 \<and> 0 < seqlen cand_A32C32 \<and>
   getNuc (seq cons_A64) (0 + 32) \<noteq> getNuc (seq cand_A32C32) 32"
  by code_simp





section \<open>The candidate heap\<close>

text \<open>
  Modelled from the spec: the macro \<open>NORM\<close> is not among the sources; section 6 of the
  specification gives \<open>NORM(id) = |id|\<close>.
\<close>

definition NORM :: "int \<Rightarrow> int" where
  "NORM x = (if x < 0 then - x else x)"

text \<open>
  \<open>reassign_heapify\<close>.  The C function reads the count with \<open>n = *bests++\<close>, which moves
  its own pointer one slot on, and the recursive call passes that moved pointer: the
  buffer is a list and \<open>base\<close> the slot the pointer stands on (0 for the callers).
  \<open>index\<close> is never negative.
\<close>

function reassign_heapify :: "int list \<Rightarrow> nat \<Rightarrow> int list \<Rightarrow> nat \<Rightarrow> int list \<times> int" where
  "reassign_heapify buf base lengths index =
     (let n = int_at buf (int base);
          b = int base + 1;
          child = 2 * int index + 1;
          root = (if child < n \<and>
                     int_at lengths (NORM (int_at buf (b + int index)))
                       < int_at lengths (NORM (int_at buf (b + child)))
                  then child else int index);
          child = child + 1;
          root = (if child < n \<and>
                     int_at lengths (NORM (int_at buf (b + root)))
                       < int_at lengths (NORM (int_at buf (b + child)))
                  then child else root)
      in if root \<noteq> int index
         then
           let buf' = buf[nat (b + int index) := int_at buf (b + root),
                          nat (b + root) := int_at buf (b + int index)]
           in case reassign_heapify buf' (base + 1) lengths (nat root) of
                (buf'', k) \<Rightarrow> (buf'', 1 + k)
         else (buf, 0))"
  by pat_completeness auto
termination
proof (relation "measure (\<lambda>(buf, base, lengths, index). length buf - base)", goal_cases)
  case 1
  show ?case by simp
next
  case (2 buf base lengths index n b child root child' root' buf')
  have "base < length buf"
  proof (rule ccontr)
    assume "\<not> base < length buf"
    then have "n = 0" using 2 by (simp add: int_at_def)
    with 2 show False by (auto split: if_splits)
  qed
  with 2 show ?case by simp
qed

text \<open>\<open>reassign_buildheap\<close>: \<open>i = *bests >> 1; while(i--)\<close>, for a count that is not negative.\<close>

fun buildheap_while :: "int list \<Rightarrow> int list \<Rightarrow> nat \<Rightarrow> int \<Rightarrow> int list \<times> int" where
  "buildheap_while buf lengths 0 n = (buf, n)"
| "buildheap_while buf lengths (Suc i) n =
     (case reassign_heapify buf 0 lengths i of
        (buf', k) \<Rightarrow> buildheap_while buf' lengths i (n + k))"

definition reassign_buildheap :: "int list \<Rightarrow> int list \<Rightarrow> int list \<times> int" where
  "reassign_buildheap bests lengths = buildheap_while bests lengths (nat (int_at bests 0 div 2)) 0"

definition reassign_popheap :: "int list \<Rightarrow> int list \<Rightarrow> int list \<times> int" where
  "reassign_popheap bests lengths =
     (if int_at bests 0 = 0 then (bests, 0)
      else
        let template = int_at bests 1;
            cnt = int_at bests 0;
            bests1 = bests[1 := int_at bests cnt, 0 := cnt - 1]
        in (fst (reassign_heapify bests1 0 lengths 0), template))"

text \<open>The ids returned by \<open>k\<close> successive calls of \<open>reassign_popheap\<close>.\<close>

fun popheap_n :: "nat \<Rightarrow> int list \<Rightarrow> int list \<Rightarrow> int list" where
  "popheap_n 0 bests lengths = []"
| "popheap_n (Suc k) bests lengths =
     (case reassign_popheap bests lengths of (bests', t) \<Rightarrow> t # popheap_n k bests' lengths)"

text \<open>Five candidates, ids 2 to 6, whose template lengths are 1 to 5.\<close>

definition heap_bests :: "int list" where
  "heap_bests = [5, 2, 3, 4, 5, 6, 0]"

definition heap_lengths :: "int list" where
  "heap_lengths = [0, 0, 1, 2, 3, 4, 5]"

text \<open>
  C4 at a concrete input: after \<open>reassign_buildheap\<close> the first three calls of
  \<open>reassign_popheap\<close> return the ids 6, 4 and 5, of lengths 5, 3 and 4: the second id is
  shorter than the third.  The sift-down of \<open>reassign_heapify\<close> goes one level only,
  because the recursive call starts from the moved pointer.
\<close>

theorem C4_popheap_order_broken:
  "popheap_n 3 (fst (reassign_buildheap heap_bests heap_lengths)) heap_lengths = [6, 4, 5] \<and>
   int_at heap_lengths (NORM 4) < int_at heap_lengths (NORM 5)"
  by code_simp


section \<open>The assembly matrix and its rewriter\<close>

text \<open>
  Modelled from the spec: \<open>assembly.h\<close> is not among the sources.  Section 3 of the
  specification gives the node (six tallies and the index of the successor), the matrix
  (the node array, \<open>len\<close>, \<open>size\<close>) and the consensus (the three NUL-terminated streams
  and the statistics).  Tallies and sums are natural numbers: no claim here depends on
  their wrap-around.  The floating-point field \<open>var\<close> is left out.
\<close>

record Assembly =
  counts :: "nat list"
  "next" :: nat

record AssemInfo =
  assmb :: "Assembly list"
  mat_len :: nat
  mat_size :: nat

record Assem =
  t_str :: "char list"
  s_str :: "char list"
  q_str :: "char list"
  score :: nat
  assem_len :: nat
  aln_len :: nat
  cover :: nat
  depth :: nat
  depthVar :: nat
  nucHighVar :: nat
  maxDepth :: nat
  snpSum :: nat
  insertSum :: nat
  deletionSum :: nat
  readCountAln :: nat
  fragmentCountAln :: nat

definition gap :: char where "gap = CHR ''-''"
definition NUL :: char where "NUL = CHR 0x00"
definition bases :: "char list" where "bases = ''ACGTN-''"
definition empty_node :: Assembly where
  "empty_node = \<lparr>counts = [0, 0, 0, 0, 0, 0], next = 0\<rparr>"

text \<open>reassign_matrix_bias\<close>

text \<open>
  \<open>reassign_matrix_bias\<close>.  A read or a write outside the node array is \<open>None\<close>; memory
  that \<open>realloc\<close> adds holds empty nodes.
\<close>

fun bias_while :: "Assembly list \<Rightarrow> int \<Rightarrow> nat \<Rightarrow> int \<Rightarrow> int \<Rightarrow> Assembly list option" where
  "bias_while a bias 0 new_ptr asm_ptr = Some a"
| "bias_while a bias (Suc n) new_ptr asm_ptr =
     (let new_ptr = new_ptr - 1; asm_ptr = asm_ptr - 1 in
      if asm_ptr < 0 \<or> int (length a) \<le> asm_ptr \<or> new_ptr < 0 \<or> int (length a) \<le> new_ptr
      then None
      else
        let node = a ! nat asm_ptr;
            a1 = a[nat new_ptr := node\<lparr>next := nat (int (next node) + bias)\<rparr>]
        in bias_while a1 bias n new_ptr asm_ptr)"

definition reassign_matrix_bias :: "AssemInfo \<Rightarrow> int \<Rightarrow> (AssemInfo \<times> int) option" where
  "reassign_matrix_bias matrix bias =
     (if int (mat_size matrix) \<le> int (mat_len matrix) + bias \<or> \<not> bias \<le> 0
      then
        let matrix1 =
              (if int (mat_size matrix) \<le> int (mat_len matrix) + bias
               then
                 let sz = nat (int (mat_len matrix) + bias + 1) in
                 matrix\<lparr>mat_size := sz,
                        assmb := take sz (assmb matrix) @ replicate (sz - length (assmb matrix)) empty_node\<rparr>
               else matrix);
            asm_ptr = int (mat_len matrix1);
            new_ptr = asm_ptr + bias;
            len1 = int (mat_len matrix1) + bias
        in if len1 < 0 then None
           else
             case bias_while (assmb matrix1) bias (nat len1) new_ptr asm_ptr of
               None \<Rightarrow> None
             | Some a \<Rightarrow> Some (matrix1\<lparr>assmb := a, mat_len := nat len1\<rparr>, bias)
      else Some (matrix, 0))"

text \<open>
  \<open>reassign_matrix_offset\<close>.  The locals of the main loop: pointers into the node array
  and into the three streams are indices; \<open>new_ptr\<close> is \<open>None\<close> while it is null.  The
  streams are rewritten in place, so a read of \<open>*t\<close> sees what \<open>*++newt\<close> has written.
\<close>

record rewrite_state =
  assembly :: "Assembly list"
  m_len :: nat
  m_size :: nat
  tS :: "char list"
  sS :: "char list"
  qS :: "char list"
  ti :: nat
  pos :: nat
  asm_ptr :: nat
  new_ptr :: "nat option"
  new_pos :: nat
  insertions :: nat
  aln :: nat
  asm_len :: nat
  dep :: nat
  depVar :: nat

definition reassign_matrix_insertions :: "rewrite_state \<Rightarrow> rewrite_state \<times> nat" where
  "reassign_matrix_insertions st =
     (let st1 = (if m_size st = m_len st
                 then st\<lparr>m_size := m_size st + 1024,
                         assembly := assembly st @ replicate 1024 empty_node\<rparr>
                 else st);
          ins = m_len st1;
          st2 = st1\<lparr>m_len := m_len st1 + 1,
                     assembly := (assembly st1)[ins := (assembly st1 ! ins)\<lparr>next := 0\<rparr>]\<rparr>
      in (st2, ins))"

definition offset_match :: "u64 list \<Rightarrow> rewrite_state \<Rightarrow> rewrite_state option" where
  "offset_match tseq st =
     (let a = assembly st; k = aln st in
      if length a \<le> asm_ptr st \<or> length a \<le> k \<or> length (counts (a ! asm_ptr st)) < 6 \<or>
         length (tS st) \<le> k \<or> length (sS st) \<le> k \<or> length (qS st) \<le> k
      then None
      else
        let cnts = counts (a ! asm_ptr st);
            depthUpdate = cnts ! 0 + cnts ! 1 + cnts ! 2 + cnts ! 3 + cnts ! 4 + cnts ! 5;
            t1 = (tS st)[k := bases ! unat (getNuc tseq (int k))];
            s1 = (sS st)[k := CHR ''|''];
            q1 = (qS st)[k := qS st ! ti st];
            a1 = (case new_ptr st of
                    None \<Rightarrow> a
                  | Some np \<Rightarrow> a[np := (a ! np)\<lparr>next := k\<rparr>]);
            a2 = a1[k := a1 ! asm_ptr st];
            st1 = st\<lparr>dep := dep st + depthUpdate, depVar := depVar st + depthUpdate * depthUpdate,
                      tS := t1, sS := s1, qS := q1, new_pos := k, new_ptr := Some k, aln := k + 1,
                      assembly := a2\<rparr>
        in if t1 ! ti st = gap
           then Some (st1\<lparr>assembly := a2[asm_ptr st := (a2 ! asm_ptr st)\<lparr>next := insertions st\<rparr>],
                          insertions := pos st, asm_ptr := k\<rparr>)
           else Some st1)"

definition offset_move :: "nat \<Rightarrow> rewrite_state \<Rightarrow> rewrite_state option" where
  "offset_move t_len st =
     (let st1 =
            (if pos st < t_len \<and> tS st ! ti st \<noteq> gap
             then
               let st2 = (if insertions st = 0
                          then case reassign_matrix_insertions st of
                                 (st', ins) \<Rightarrow>
                                   st'\<lparr>insertions := ins, asm_ptr := pos st', new_ptr := Some (new_pos st')\<rparr>
                          else st);
                   a = assembly st2; ins = insertions st2
               in if length a \<le> ins \<or> length a \<le> asm_ptr st2 then None
                  else
                    let tmp = next (a ! ins) in
                    Some (st2\<lparr>assembly := a[ins := a ! asm_ptr st2], pos := ins, asm_ptr := ins,
                               insertions := tmp\<rparr>)
             else Some st)
      in case st1 of
           None \<Rightarrow> None
         | Some st3 \<Rightarrow>
             (case new_ptr st3 of
                None \<Rightarrow> None
              | Some np \<Rightarrow>
                  if length (assembly st3) \<le> np then None
                  else Some (st3\<lparr>assembly := (assembly st3)[np := (assembly st3 ! np)\<lparr>next := pos st3\<rparr>],
                                  new_pos := pos st3, new_ptr := Some (asm_ptr st3)\<rparr>)))"

definition offset_step :: "u64 list \<Rightarrow> nat \<Rightarrow> rewrite_state \<Rightarrow> rewrite_state option" where
  "offset_step tseq t_len st =
     (if length (qS st) \<le> ti st \<or> length (tS st) \<le> ti st \<or> length (sS st) \<le> ti st then None
      else
        case (if qS st ! ti st \<noteq> gap then offset_match tseq st else offset_move t_len st) of
          None \<Rightarrow> None
        | Some st1 \<Rightarrow>
            if length (assembly st1) \<le> asm_ptr st1 then None
            else
              let p = next (assembly st1 ! asm_ptr st1) in
              Some (st1\<lparr>asm_len := asm_len st1 + 1, ti := ti st1 + 1, pos := p, asm_ptr := p\<rparr>))"

lemma offset_step_progress:
  "offset_step tseq t_len st = Some st' \<Longrightarrow>
   length (qS st') = length (qS st) \<and> ti st' = ti st + 1 \<and> ti st < length (qS st)"
  by (auto simp: offset_step_def offset_match_def offset_move_def reassign_matrix_insertions_def Let_def
           split: if_splits option.splits prod.splits)

function offset_while :: "u64 list \<Rightarrow> nat \<Rightarrow> rewrite_state \<Rightarrow> rewrite_state option" where
  "offset_while tseq t_len st =
     (if aln st \<noteq> t_len
      then case offset_step tseq t_len st of
             None \<Rightarrow> None
           | Some st1 \<Rightarrow> offset_while tseq t_len st1
      else Some st)"
  by pat_completeness auto
termination
  by (relation "measure (\<lambda>(tseq, t_len, st). length (qS st) - ti st)")
     (auto dest!: offset_step_progress)


function skip_offset :: "char list \<Rightarrow> Assembly list \<Rightarrow> nat \<Rightarrow> nat \<Rightarrow> nat \<Rightarrow> (nat \<times> nat) option" where
  "skip_offset q a offset i p =
     (if offset \<noteq> 0
      then if length q \<le> i \<or> length a \<le> p then None
           else skip_offset q a (if q ! i \<noteq> gap then offset - 1 else offset) (i + 1) (next (a ! p))
      else Some (i, p))"
  by pat_completeness auto
termination
  by (relation "measure (\<lambda>(q, a, offset, i, p). length q - i)") auto

function bias_count :: "char list \<Rightarrow> char list \<Rightarrow> nat \<Rightarrow> nat \<Rightarrow> int \<Rightarrow> int option" where
  "bias_count t q i n bias =
     (if length t \<le> i then None
      else if t ! i \<noteq> NUL \<and> n \<noteq> 0
      then if length q \<le> i then None
           else bias_count t q (i + 1) (n - 1) (if t ! i = gap \<and> q ! i \<noteq> gap then bias + 1 else bias)
      else Some bias)"
  by pat_completeness auto
termination
  by (relation "measure (\<lambda>(t, q, i, n, bias). length t - i)") auto

definition reassign_matrix_offset ::
  "AssemInfo \<Rightarrow> Assem \<Rightarrow> nat \<Rightarrow> u64 list \<Rightarrow> nat \<Rightarrow> (AssemInfo \<times> Assem) option" where
  "reassign_matrix_offset matrix aligned_assem offset tseq t_len =
     (case skip_offset (q_str aligned_assem) (assmb matrix) offset 0 0 of
        None \<Rightarrow> None
      | Some (i, p) \<Rightarrow>
     (case bias_count (t_str aligned_assem) (q_str aligned_assem) i t_len (- int offset) of
        None \<Rightarrow> None
      | Some bias0 \<Rightarrow>
     (case reassign_matrix_bias matrix bias0 of
        None \<Rightarrow> None
      | Some (matrix1, bias) \<Rightarrow>
     (case offset_while tseq t_len
             \<lparr>assembly = assmb matrix1, m_len = mat_len matrix1, m_size = mat_size matrix1,
              tS = t_str aligned_assem, sS = s_str aligned_assem, qS = q_str aligned_assem,
              ti = i, pos = nat (int p + bias), asm_ptr = nat (int p + bias), new_ptr = None,
              new_pos = 0, insertions = 0, aln = 0, asm_len = 0, dep = 0, depVar = 0\<rparr> of
        None \<Rightarrow> None
      | Some st \<Rightarrow>
     (case new_ptr st of
        None \<Rightarrow> None
      | Some np \<Rightarrow>
          if length (tS st) \<le> aln st \<or> length (sS st) \<le> aln st \<or> length (qS st) \<le> aln st \<or>
             length (assembly st) \<le> np
          then None
          else Some
            (\<lparr>assmb = (assembly st)[np := (assembly st ! np)\<lparr>next := 0\<rparr>],
              mat_len = asm_len st, mat_size = m_size st\<rparr>,
             aligned_assem\<lparr>t_str := (tS st)[aln st := NUL], s_str := (sS st)[aln st := NUL],
                            q_str := (qS st)[aln st := NUL],
                            depth := dep st, depthVar := depVar st,
                            assem_len := aln st, aln_len := aln st, cover := t_len\<rparr>))))))"

text \<open>The nodes visited from \<open>p\<close> along \<open>next\<close>, at most \<open>n\<close> of them, up to a zero link.\<close>

fun list_from :: "Assembly list \<Rightarrow> nat \<Rightarrow> nat \<Rightarrow> nat list" where
  "list_from a 0 p = []"
| "list_from a (Suc n) p =
     p # (if length a \<le> p \<or> next (a ! p) = 0 then [] else list_from a n (next (a ! p)))"

text \<open>
  A consensus of eight columns over an old template of three bases: a match, two
  insertions, then an insertion, a deletion, two insertions and a match.  The template
  nodes are 0, 1, 2; the insertion nodes 4, 5, 3, 6, 7 in column order.
\<close>

definition nd :: "nat \<Rightarrow> nat \<Rightarrow> Assembly" where
  "nd c nx = \<lparr>counts = [c, 0, 0, 0, 0, 0], next = nx\<rparr>"

definition rw_matrix :: AssemInfo where
  "rw_matrix = \<lparr>assmb = [nd 10 4, nd 11 6, nd 12 0, nd 13 1, nd 14 5, nd 15 3, nd 16 7, nd 17 2,
                           empty_node, empty_node, empty_node, empty_node],
                 mat_len = 8, mat_size = 12\<rparr>"

definition rw_assem :: Assem where
  "rw_assem = \<lparr>t_str = ''A---C--G'' @ [NUL], s_str = ''|   _  |'' @ [NUL], q_str = ''ATTT-TTG'' @ [NUL],
     score = 0, assem_len = 8, aln_len = 8, cover = 3, depth = 0, depthVar = 0, nucHighVar = 0, maxDepth = 0,
     snpSum = 0, insertSum = 0, deletionSum = 0, readCountAln = 0, fragmentCountAln = 0\<rparr>"

definition rw_tseq :: "u64 list" where
  "rw_tseq = [0xFE00000000000000, 0]"

text \<open>
  C6 at a concrete input: the new template is \<open>TTTG\<close>, matched at offset 3 of the
  consensus \<open>ATTTTTG\<close>.  The call returns with \<open>aln_len = len = cover = 4\<close>, and the list
  from node 0 is 0, 3: the template columns 1 and 2 are not on it.  The copy into slot 3
  has overwritten the deletion column that was moved there.
\<close>

theorem C6_rewrite_loses_columns:
  "list_from (assmb rw_matrix) 12 0 = [0, 4, 5, 3, 1, 6, 7, 2] \<and>
   map_option (\<lambda>(m, a). (list_from (assmb m) 12 0, aln_len a, assem_len a, cover a))
     (reassign_matrix_offset rw_matrix rw_assem 3 rw_tseq 4) = Some ([0, 3], 4, 4, 4)"
  by code_simp


section \<open>Extended features\<close>

text \<open>
  \<open>getExtendedFeatures\<close>, as one worker runs it.  The statics \<open>next\<close> and \<open>thread_wait\<close>
  are passed in and out; \<open>lock\<close> and \<open>unlock\<close> do nothing for one worker.
  \<open>fixVarOverflow\<close> is not among the sources and is a parameter; the floating-point
  test \<open>highVar < depthUpdate\<close> is a parameter too.  The inner loop follows the \<open>next\<close>
  links, so nothing bounds it: \<open>None\<close> is a call that does not return or leaves the
  array.  \<open>wait_atomic\<close> returns once \<open>thread_wait\<close> is zero.
\<close>

record ef_static =
  ef_next :: int
  thread_wait :: int

record ef_locals =
  l_nucHighVar :: nat
  l_maxDepth :: nat
  l_snpSum :: nat
  l_insertSum :: nat
  l_deletionSum :: nat

definition to_int32 :: "int \<Rightarrow> int" where
  "to_int32 x = sint (word_of_int x :: 32 word)"

definition call_pos ::
  "(nat \<Rightarrow> bool) \<Rightarrow> Assembly \<Rightarrow> u64 list \<Rightarrow> nat \<Rightarrow> nat \<Rightarrow> ef_locals \<Rightarrow> ef_locals" where
  "call_pos highVar_lt node sq t_len p acc =
     (let c = counts node;
          depthUpdate = c ! 0 + c ! 1 + c ! 2 + c ! 3 + c ! 4;
          acc1 = (if p < t_len
                  then acc\<lparr>l_deletionSum := l_deletionSum acc + c ! 5,
                           l_snpSum := l_snpSum acc + (depthUpdate - c ! unat (getNuc sq (int p)))\<rparr>
                  else acc\<lparr>l_insertSum := l_insertSum acc + depthUpdate\<rparr>);
          depthUpdate = depthUpdate + c ! 5;
          acc2 = (if l_maxDepth acc1 < depthUpdate then acc1\<lparr>l_maxDepth := depthUpdate\<rparr> else acc1)
      in if highVar_lt depthUpdate then acc2\<lparr>l_nucHighVar := l_nucHighVar acc2 + 1\<rparr> else acc2)"

partial_function (option) call_chunk ::
  "(nat \<Rightarrow> bool) \<Rightarrow> Assembly list \<Rightarrow> u64 list \<Rightarrow> nat \<Rightarrow> nat \<Rightarrow> nat \<Rightarrow> ef_locals \<Rightarrow> ef_locals option" where
  "call_chunk highVar_lt a sq t_len e p acc =
     (if p \<noteq> e
      then if length a \<le> p \<or> length (counts (a ! p)) < 6 then None
           else
             let acc1 = call_pos highVar_lt (a ! p) sq t_len p acc;
                 nx = next (a ! p)
             in call_chunk highVar_lt a sq t_len e (if nx = 0 then e else nx) acc1
      else Some acc)"

partial_function (option) chunk_while ::
  "(nat \<Rightarrow> bool) \<Rightarrow> Assembly list \<Rightarrow> u64 list \<Rightarrow> nat \<Rightarrow> nat \<Rightarrow> int \<Rightarrow> ef_locals \<Rightarrow> (int \<times> ef_locals) option" where
  "chunk_while highVar_lt a sq t_len chunk nxt acc =
     (if chunk \<noteq> 0
      then
        let p = nat nxt;
            nxt1 = to_int32 (nxt + int chunk);
            nxt2 = (if nxt1 < 0 then int t_len else nxt1)
        in if p < t_len
           then
             let e = p + chunk;
                 chunk1 = (if t_len \<le> e then 0 else chunk);
                 e1 = (if t_len \<le> e then t_len - 1 else e)
             in case call_chunk highVar_lt a sq t_len e1 p acc of
                  None \<Rightarrow> None
                | Some acc1 \<Rightarrow> chunk_while highVar_lt a sq t_len chunk1 nxt2 acc1
           else chunk_while highVar_lt a sq t_len 0 nxt2 acc
      else Some (nxt, acc))"

declare call_chunk.simps [code]
declare chunk_while.simps [code]

definition getExtendedFeatures ::
  "(Assem \<Rightarrow> Assembly list \<Rightarrow> nat \<Rightarrow> int \<Rightarrow> Assem) \<Rightarrow> (Assem \<Rightarrow> nat \<Rightarrow> nat \<Rightarrow> bool) \<Rightarrow>
   ef_static \<Rightarrow> Assem \<Rightarrow> AssemInfo \<Rightarrow> u64 list \<Rightarrow> nat \<Rightarrow> int \<Rightarrow> (ef_static \<times> Assem) option" where
  "getExtendedFeatures fixVarOverflow highVar_lt st aligned_assem matrix sq t_len thread_num =
     (let a = assmb matrix;
          acc0 = \<lparr>l_nucHighVar = 0, l_maxDepth = 0, l_snpSum = 0, l_insertSum = 0, l_deletionSum = 0\<rparr>;
          half = readCountAln aligned_assem div 2 + readCountAln aligned_assem mod 2;
          init = (thread_wait st = 0);
          st1 = (if init then st\<lparr>ef_next := 0, thread_wait := thread_num\<rparr> else st);
          as1 = (if init
                 then aligned_assem
                        \<lparr>fragmentCountAln :=
                           (if half \<le> fragmentCountAln aligned_assem
                            then fragmentCountAln aligned_assem else half),
                         nucHighVar := 0, maxDepth := 0, snpSum := 0, insertSum := 0, deletionSum := 0\<rparr>
                 else aligned_assem);
          as2 = fixVarOverflow as1 a t_len thread_num
      in case chunk_while (highVar_lt as2 t_len) a sq t_len 8112 (ef_next st1) acc0 of
           None \<Rightarrow> None
         | Some (nxt, acc) \<Rightarrow>
             let as3 = as2\<lparr>nucHighVar := nucHighVar as2 + l_nucHighVar acc,
                            maxDepth := (if maxDepth as2 < l_maxDepth acc then l_maxDepth acc else maxDepth as2),
                            snpSum := snpSum as2 + l_snpSum acc,
                            insertSum := insertSum as2 + l_insertSum acc,
                            deletionSum := deletionSum as2 + l_deletionSum acc\<rparr>;
                 st2 = st1\<lparr>ef_next := nxt, thread_wait := thread_wait st1 - 1\<rparr>
             in if thread_wait st2 = 0 then Some (st2, as3) else None)"

text \<open>The sums of the per-position terms over the template positions \<open>0, ..., t_len - 1\<close>.\<close>

definition deletion_total :: "Assembly list \<Rightarrow> nat \<Rightarrow> nat" where
  "deletion_total a t_len = sum_list (map (\<lambda>p. counts (a ! p) ! 5) [0..<t_len])"

definition snp_total :: "Assembly list \<Rightarrow> u64 list \<Rightarrow> nat \<Rightarrow> nat" where
  "snp_total a sq t_len =
     sum_list (map (\<lambda>p. let c = counts (a ! p)
                         in (c ! 0 + c ! 1 + c ! 2 + c ! 3 + c ! 4) - c ! unat (getNuc sq (int p)))
                   [0..<t_len])"

text \<open>Two template positions, template \<open>AA\<close>.\<close>

definition ef_matrix :: AssemInfo where
  "ef_matrix = \<lparr>assmb = [\<lparr>counts = [1, 0, 0, 0, 0, 2], next = 1\<rparr>,
                          \<lparr>counts = [0, 3, 0, 0, 0, 4], next = 0\<rparr>],
                 mat_len = 2, mat_size = 2\<rparr>"

definition ef_assem :: Assem where
  "ef_assem = \<lparr>t_str = ''AA'' @ [NUL], s_str = ''| '' @ [NUL], q_str = ''AC'' @ [NUL],
     score = 0, assem_len = 2, aln_len = 2, cover = 2, depth = 10, depthVar = 52, nucHighVar = 0, maxDepth = 0,
     snpSum = 0, insertSum = 0, deletionSum = 0, readCountAln = 0, fragmentCountAln = 0\<rparr>"

text \<open>
  C7 at a concrete input: one worker, \<open>t_len = 2\<close>.  The per-position terms sum to 6
  deletions and 3 SNPs; the call publishes 2 and 0.  The last chunk ends at
  \<open>end = t_len - 1\<close> and the loop \<open>while(pos != end)\<close> stops before that position.
\<close>

theorem C7_last_position_not_counted:
  "map_option (\<lambda>(st, a). (deletionSum a, snpSum a))
     (getExtendedFeatures (\<lambda>a m t n. a) (\<lambda>a t d. False) \<lparr>ef_next = 0, thread_wait = 0\<rparr>
        ef_assem ef_matrix [0, 0] 2 1) = Some (2, 0) \<and>
   deletion_total (assmb ef_matrix) 2 = 6 \<and> snp_total (assmb ef_matrix) [0, 0] 2 = 3"
  by code_simp

section \<open>The k-mer scanner\<close>

text \<open>
  Modelled from the spec: the k-mer index \<open>HashMapKMA\<close> (\<open>hashmapkma.h\<close>) and the
  minimizer functions \<open>initCmer\<close>, \<open>updateCmer\<close>, \<open>getCmer\<close> are not among the
  sources.  Sections 3 and 4.2 of the specification give the index as an immutable map
  from a k-mer to a value vector, a length-prefixed list of template ids, with the
  fields \<open>DB_size\<close>, \<open>kmersize\<close>, \<open>prefix\<close>, \<open>prefix_len\<close> and \<open>flag\<close> (whether each
  k-mer is reduced to a minimizer \<open>cmer\<close> over \<open>mlen\<close> bases), and the lookup as
  deterministic, returning a pointer to the value vector or nothing.  A value
  vector is named by a number here: two lookups return the same pointer exactly when
  they return the same number, and \<open>vector_at\<close> gives the template ids stored behind
  it.  The minimizer functions are fields of the index; they take the registers
  \<open>mPos\<close>, \<open>hmer\<close>, \<open>hLen\<close> as a triple and return it updated.  The branches of the
  source for \<open>DB_size < USHRT_MAX\<close> differ in the width of the stored ids only and are
  one branch here.
\<close>

type_synonym min_state = "int \<times> u64 \<times> int"

record HashMapKMA =
  DB_size :: nat
  kmersize :: int
  prefix :: u64
  prefix_len :: int
  mlen :: int
  flag :: nat
  hashMap_get :: "u64 \<Rightarrow> nat option"
  vector_at :: "nat \<Rightarrow> nat list"
  initCmer :: "u64 \<Rightarrow> min_state \<Rightarrow> u64 \<times> min_state"
  updateCmer :: "u64 \<Rightarrow> min_state \<Rightarrow> u64 \<Rightarrow> u64 \<times> min_state"
  getCmer :: "u64 \<Rightarrow> min_state \<Rightarrow> u64 \<times> min_state"

text \<open>
  The variables of one pass: the score array, the candidate buffer, and the pending run
  (\<open>last\<close>, \<open>reps\<close>); \<open>last_v = None\<close> is the null pointer.  The k-mer registers
  \<open>pmer\<close>, \<open>kmer\<close>, \<open>cmer\<close> and the minimizer registers are a second record.
\<close>

record hit_state =
  Scores :: "int list"
  bests :: "int list"
  last_v :: "nat option"
  reps :: int

record kmer_state =
  pmer :: u64
  kmer :: u64
  cmer :: u64
  mstate :: min_state

text \<open>
  The flush loop \<open>if((Scores[*++last] += reps) == reps) bests[++*bests] = *last;\<close> over
  the ids of a value vector; \<open>b\<close> is the slot of the buffer that holds the count
  (\<open>0\<close> for \<open>bestTemplates\<close>, \<open>DB_size\<close> for \<open>bestTemplates_r\<close>).
\<close>

definition flush_id :: "nat \<Rightarrow> int \<Rightarrow> nat \<Rightarrow> int list \<times> int list \<Rightarrow> int list \<times> int list" where
  "flush_id b r t X =
     (case X of (Sc, bs) \<Rightarrow>
        let v = int_at Sc (int t) + r;
            Sc1 = Sc[t := v]
        in if v = r
           then
             let cnt = int_at bs (int b) + 1;
                 bs1 = bs[b := cnt]
             in (Sc1, bs1[nat (int b + cnt) := int t])
           else (Sc1, bs))"

definition flush_ids :: "nat \<Rightarrow> int \<Rightarrow> nat list \<Rightarrow> int list \<times> int list \<Rightarrow> int list \<times> int list" where
  "flush_ids b r ids X = fold (flush_id b r) ids X"

definition flush_last :: "HashMapKMA \<Rightarrow> nat \<Rightarrow> hit_state \<Rightarrow> hit_state" where
  "flush_last templates b hs =
     (case last_v hs of
        None \<Rightarrow> hs
      | Some l \<Rightarrow>
          (case flush_ids b (reps hs) (vector_at templates l) (Scores hs, bests hs) of
             (Sc, bs) \<Rightarrow> hs\<lparr>Scores := Sc, bests := bs\<rparr>))"

text \<open>
  What the source does on a hit \<open>values\<close>: a hit on the pending vector is counted, any other
  hit flushes the pending run and starts a new one.
\<close>

definition kmers_hit :: "HashMapKMA \<Rightarrow> nat \<Rightarrow> nat \<Rightarrow> hit_state \<Rightarrow> hit_state" where
  "kmers_hit templates b values hs =
     (if Some values = last_v hs then hs\<lparr>reps := reps hs + 1\<rparr>
      else (flush_last templates b hs)\<lparr>reps := 1, last_v := Some values\<rparr>)"

text \<open>
  The scanner without the \<open>reps\<close> compression (section 8 of the specification, property
  2), following the words of the specification: every hit is flushed at once with
  \<open>reps = 1\<close>.  It is not in the source; the passes below take
  the hit handler as their parameter \<open>H\<close>, so both scanners share every other line.
\<close>

definition kmers_hit_individual :: "HashMapKMA \<Rightarrow> nat \<Rightarrow> nat \<Rightarrow> hit_state \<Rightarrow> hit_state" where
  "kmers_hit_individual templates b values hs =
     (case flush_ids b 1 (vector_at templates values) (Scores hs, bests hs) of
        (Sc, bs) \<Rightarrow> hs\<lparr>Scores := Sc, bests := bs\<rparr>)"

definition lookup ::
  "(HashMapKMA \<Rightarrow> nat \<Rightarrow> nat \<Rightarrow> hit_state \<Rightarrow> hit_state) \<Rightarrow> HashMapKMA \<Rightarrow> nat \<Rightarrow> u64 \<Rightarrow>
   hit_state \<Rightarrow> hit_state" where
  "lookup H templates b c hs =
     (case hashMap_get templates c of None \<Rightarrow> hs | Some values \<Rightarrow> H templates b values hs)"

text \<open>The shifts and masks computed at entry, and the three ways a k-mer is read.\<close>

definition shifter :: "HashMapKMA \<Rightarrow> nat" where
  "shifter templates = nat (64 - 2 * kmersize templates)"

definition kmask :: "HashMapKMA \<Rightarrow> u64" where
  "kmask templates = drop_bit (shifter templates) (- 1)"

definition prefix_shifter :: "HashMapKMA \<Rightarrow> nat" where
  "prefix_shifter templates = nat (64 - 2 * prefix_len templates)"

definition pmask :: "HashMapKMA \<Rightarrow> u64" where
  "pmask templates = drop_bit (prefix_shifter templates) (- 1)"

definition kmer_start :: "HashMapKMA \<Rightarrow> u64 list \<Rightarrow> int \<Rightarrow> kmer_state \<Rightarrow> kmer_state" where
  "kmer_start templates sq j ks =
     (let k0 = getKmer sq j (shifter templates + 2) in
      if flag templates \<noteq> 0
      then (case initCmer templates k0 (mstate ks) of
              (c0, m0) \<Rightarrow> ks\<lparr>kmer := k0, cmer := c0, mstate := m0\<rparr>)
      else ks\<lparr>kmer := k0, cmer := k0\<rparr>)"

definition kmer_shift :: "HashMapKMA \<Rightarrow> u64 list \<Rightarrow> int \<Rightarrow> kmer_state \<Rightarrow> kmer_state" where
  "kmer_shift templates sq j ks =
     (let k1 = updateKmer (kmer ks) sq j (kmask templates) in
      if flag templates \<noteq> 0
      then (case updateCmer templates (cmer ks) (mstate ks) k1 of
              (c1, m1) \<Rightarrow> ks\<lparr>kmer := k1, cmer := c1, mstate := m1\<rparr>)
      else ks\<lparr>kmer := k1, cmer := k1\<rparr>)"

definition kmer_read :: "HashMapKMA \<Rightarrow> u64 list \<Rightarrow> int \<Rightarrow> kmer_state \<Rightarrow> kmer_state" where
  "kmer_read templates sq j ks =
     (let k1 = getKmer sq j (shifter templates) in
      if flag templates \<noteq> 0
      then (case getCmer templates k1 (mstate ks) of
              (c1, m1) \<Rightarrow> ks\<lparr>kmer := k1, cmer := c1, mstate := m1\<rparr>)
      else ks\<lparr>kmer := k1, cmer := k1\<rparr>)"

text \<open>
  The loops over the sequence.  \<open>kmers_inner\<close> and \<open>kmers_stretches\<close> are the two nested
  \<open>for\<close> loops of the branch without prefix, \<open>prefix_inner\<close> and \<open>prefix_stretches\<close>
  those of prefix mode.  The position \<open>j\<close> is carried from one stretch to the next as
  the source does (it is not moved past the N position).
\<close>

function kmers_inner ::
  "(HashMapKMA \<Rightarrow> nat \<Rightarrow> nat \<Rightarrow> hit_state \<Rightarrow> hit_state) \<Rightarrow> HashMapKMA \<Rightarrow> nat \<Rightarrow> u64 list \<Rightarrow>
   int \<Rightarrow> int \<Rightarrow> kmer_state \<Rightarrow> hit_state \<Rightarrow> int \<times> kmer_state \<times> hit_state" where
  "kmers_inner H templates b sq e j ks hs =
     (if j < e
      then
        let ks1 = kmer_shift templates sq j ks in
        kmers_inner H templates b sq e (j + 1) ks1 (lookup H templates b (cmer ks1) hs)
      else (j, ks, hs))"
  by pat_completeness auto
termination
  by (relation "measure (\<lambda>(H, templates, b, sq, e, j, ks, hs). nat (e - j))") auto

declare kmers_inner.simps [simp del]

function kmers_stretches ::
  "(HashMapKMA \<Rightarrow> nat \<Rightarrow> nat \<Rightarrow> hit_state \<Rightarrow> hit_state) \<Rightarrow> HashMapKMA \<Rightarrow> nat \<Rightarrow> u64 list \<Rightarrow>
   int list \<Rightarrow> int \<Rightarrow> int \<Rightarrow> int \<Rightarrow> kmer_state \<Rightarrow> hit_state \<Rightarrow> kmer_state \<times> hit_state" where
  "kmers_stretches H templates b sq Ns seqend i j ks hs =
     (if i \<le> int_at Ns 0 \<and> j < seqend
      then
        case kmers_inner H templates b sq (int_at Ns i) (j + kmersize templates - 1)
               (kmer_start templates sq j ks) hs of
          (j1, ks1, hs1) \<Rightarrow> kmers_stretches H templates b sq Ns seqend (i + 1) j1 ks1 hs1
      else (ks, hs))"
  by pat_completeness auto
termination
  by (relation "measure (\<lambda>(H, templates, b, sq, Ns, seqend, i, j, ks, hs). nat (int_at Ns 0 + 1 - i))") auto

declare kmers_stretches.simps [simp del]

function prefix_inner ::
  "(HashMapKMA \<Rightarrow> nat \<Rightarrow> nat \<Rightarrow> hit_state \<Rightarrow> hit_state) \<Rightarrow> HashMapKMA \<Rightarrow> nat \<Rightarrow> u64 list \<Rightarrow>
   int \<Rightarrow> int \<Rightarrow> kmer_state \<Rightarrow> hit_state \<Rightarrow> int \<times> kmer_state \<times> hit_state" where
  "prefix_inner H templates b sq e j ks hs =
     (if j < e
      then
        let ks1 = ks\<lparr>pmer := updateKmer (pmer ks) sq j (pmask templates)\<rparr> in
        if pmer ks1 = prefix templates
        then
          let ks2 = kmer_read templates sq (j + 1) ks1 in
          prefix_inner H templates b sq e (j + 1) ks2 (lookup H templates b (cmer ks2) hs)
        else prefix_inner H templates b sq e (j + 1) ks1 hs
      else (j, ks, hs))"
  by pat_completeness auto
termination
  by (relation "measure (\<lambda>(H, templates, b, sq, e, j, ks, hs). nat (e - j))") auto

declare prefix_inner.simps [simp del]

function prefix_stretches ::
  "(HashMapKMA \<Rightarrow> nat \<Rightarrow> nat \<Rightarrow> hit_state \<Rightarrow> hit_state) \<Rightarrow> HashMapKMA \<Rightarrow> nat \<Rightarrow> u64 list \<Rightarrow>
   int list \<Rightarrow> int \<Rightarrow> int \<Rightarrow> kmer_state \<Rightarrow> hit_state \<Rightarrow> kmer_state \<times> hit_state" where
  "prefix_stretches H templates b sq Ns i j ks hs =
     (if i \<le> int_at Ns 0
      then
        case prefix_inner H templates b sq (int_at Ns i - kmersize templates)
               (j + prefix_len templates - 1)
               (ks\<lparr>pmer := getKmer sq j (prefix_shifter templates + 2)\<rparr>) hs of
          (j1, ks1, hs1) \<Rightarrow> prefix_stretches H templates b sq Ns (i + 1) j1 ks1 hs1
      else (ks, hs))"
  by pat_completeness auto
termination
  by (relation "measure (\<lambda>(H, templates, b, sq, Ns, i, j, ks, hs). nat (int_at Ns 0 + 1 - i))") auto

declare prefix_stretches.simps [simp del]

text \<open>
  A pass appends the sentinel \<open>seqlen\<close> to the N table (\<open>qseq->N[0]++\<close>,
  \<open>qseq->N[qseq->N[0]] = qseq->seqlen\<close>) and takes it off at its end; the table is
  scratch for the pass and is not returned.  The locals \<open>mPos\<close> and \<open>hmer\<close> are not
  initialised in the source and start as zero, \<open>hLen\<close> as \<open>kmersize\<close>.  After the
  loops the pending run is flushed.
\<close>

definition with_sentinel :: "CompDNA \<Rightarrow> int list" where
  "with_sentinel qseq =
     (let n1 = int_at (N qseq) 0 + 1 in (N qseq)[0 := n1, nat n1 := seqlen qseq])"

definition kmer_state0 :: "HashMapKMA \<Rightarrow> kmer_state" where
  "kmer_state0 templates = \<lparr>pmer = 0, kmer = 0, cmer = 0, mstate = (0, 0, kmersize templates)\<rparr>"

definition hit_state0 :: "int list \<times> int list \<Rightarrow> hit_state" where
  "hit_state0 X = \<lparr>Scores = fst X, bests = snd X, last_v = None, reps = 0\<rparr>"

definition kmers_pass ::
  "(HashMapKMA \<Rightarrow> nat \<Rightarrow> nat \<Rightarrow> hit_state \<Rightarrow> hit_state) \<Rightarrow> HashMapKMA \<Rightarrow> nat \<Rightarrow> CompDNA \<Rightarrow>
   int \<Rightarrow> kmer_state \<Rightarrow> int list \<times> int list \<Rightarrow> kmer_state \<times> int list \<times> int list" where
  "kmers_pass H templates b qseq seqend ks X =
     (case kmers_stretches H templates b (seq qseq) (with_sentinel qseq) seqend 1 0 ks (hit_state0 X) of
        (ks1, hs1) \<Rightarrow>
          let hs2 = flush_last templates b hs1 in (ks1, Scores hs2, bests hs2))"

definition prefix_pass ::
  "(HashMapKMA \<Rightarrow> nat \<Rightarrow> nat \<Rightarrow> hit_state \<Rightarrow> hit_state) \<Rightarrow> HashMapKMA \<Rightarrow> nat \<Rightarrow> CompDNA \<Rightarrow>
   kmer_state \<Rightarrow> int list \<times> int list \<Rightarrow> kmer_state \<times> int list \<times> int list" where
  "prefix_pass H templates b qseq ks X =
     (case prefix_stretches H templates b (seq qseq) (with_sentinel qseq) 1 0 ks (hit_state0 X) of
        (ks1, hs1) \<Rightarrow>
          let hs2 = flush_last templates b hs1 in (ks1, Scores hs2, bests hs2))"

text \<open>
  The evaluation of the scores: the listed ids are read in order, an id whose score is
  below its threshold is dropped and the count decremented, the others are moved down
  in place, and the score of every id read is set to zero.  \<open>vi\<close> and \<open>li\<close> are the
  pointers \<open>values\<close> and \<open>last\<close> as offsets from the count slot.
\<close>

primrec sweep_while ::
  "(int \<Rightarrow> int) \<Rightarrow> nat \<Rightarrow> nat \<Rightarrow> nat \<Rightarrow> nat \<Rightarrow> int list \<times> int list \<Rightarrow> int list \<times> int list" where
  "sweep_while thr b 0 vi li X = X"
| "sweep_while thr b (Suc n) vi li X =
     (let t = int_at (snd X) (int (b + vi));
          keep = \<not> int_at (fst X) t < thr t;
          bs1 = (if keep then (snd X)[b + li + 1 := t]
                 else (snd X)[b := int_at (snd X) (int b) - 1]);
          Sc1 = (fst X)[nat t := 0]
      in sweep_while thr b n (vi + 1) (if keep then li + 1 else li) (Sc1, bs1))"

definition sweep :: "(int \<Rightarrow> int) \<Rightarrow> nat \<Rightarrow> int list \<times> int list \<Rightarrow> int list \<times> int list" where
  "sweep thr b X = sweep_while thr b (nat (int_at (snd X) (int b))) 1 0 X"

text \<open>
  The merge after the two strands: each id of \<open>bestTemplates_r\<close> is appended, negated,
  to \<open>bestTemplates\<close>.
\<close>

primrec merge_while :: "nat \<Rightarrow> nat \<Rightarrow> nat \<Rightarrow> int list \<Rightarrow> int list" where
  "merge_while DB 0 ri bs = bs"
| "merge_while DB (Suc n) ri bs =
     (let cnt = int_at bs 0 + 1;
          bs1 = bs[0 := cnt]
      in merge_while DB n (ri + 1) (bs1[nat cnt := - int_at bs1 (int (DB + ri + 1))]))"

definition merge_matches :: "nat \<Rightarrow> int list \<Rightarrow> int list" where
  "merge_matches DB bs = merge_while DB (nat (int_at bs (int DB))) 0 bs"

text \<open>
  The threshold of the sweep.  In prefix mode the source first advances the pointer,
  \<open>template_lengths += templates->DB_size\<close>, so the entry compared with is
  \<open>template_lengths[DB_size + t]\<close> of the array passed in.
\<close>

definition threshold :: "HashMapKMA \<Rightarrow> int list \<Rightarrow> int \<Rightarrow> int" where
  "threshold templates template_lengths t =
     (if prefix_len templates \<noteq> 0 then int_at template_lengths (int (DB_size templates) + t)
      else int_at template_lengths t - kmersize templates + 1)"

text \<open>
  \<open>reassign_kmers\<close>.  Prefix mode scans both strands into one list and sweeps once.
  Otherwise the forward strand is scanned and swept, then, if \<open>prefix\<close> is zero, the
  reverse strand is scanned into \<open>bestTemplates_r\<close> and swept, and the two lists are
  merged.  \<open>prefix_scan\<close>, \<open>fw_scan\<close> and \<open>rc_scan\<close> are the states just before the
  sweeps.  The result is the returned count, the buffer and the score array.
\<close>

definition kmers_init :: "HashMapKMA \<Rightarrow> int list \<Rightarrow> int list" where
  "kmers_init templates bestTemplates = bestTemplates[0 := 0, DB_size templates := 0]"

definition seqend_of :: "HashMapKMA \<Rightarrow> CompDNA \<Rightarrow> int" where
  "seqend_of templates qseq_fw = seqlen qseq_fw - kmersize templates + 1"

definition prefix_scan ::
  "(HashMapKMA \<Rightarrow> nat \<Rightarrow> nat \<Rightarrow> hit_state \<Rightarrow> hit_state) \<Rightarrow> HashMapKMA \<Rightarrow> int list \<Rightarrow> int list \<Rightarrow>
   CompDNA \<Rightarrow> CompDNA \<Rightarrow> int list \<times> int list" where
  "prefix_scan H templates bestTemplates Score qseq_fw qseq_rc =
     (let P1 = prefix_pass H templates 0 qseq_fw (kmer_state0 templates)
                 (Score, kmers_init templates bestTemplates)
      in snd (prefix_pass H templates 0 qseq_rc (fst P1) (snd P1)))"

definition fw_scan ::
  "(HashMapKMA \<Rightarrow> nat \<Rightarrow> nat \<Rightarrow> hit_state \<Rightarrow> hit_state) \<Rightarrow> HashMapKMA \<Rightarrow> int list \<Rightarrow> int list \<Rightarrow>
   CompDNA \<Rightarrow> kmer_state \<times> int list \<times> int list" where
  "fw_scan H templates bestTemplates Score qseq_fw =
     kmers_pass H templates 0 qseq_fw (seqend_of templates qseq_fw) (kmer_state0 templates)
       (Score, kmers_init templates bestTemplates)"

definition rc_scan ::
  "(HashMapKMA \<Rightarrow> nat \<Rightarrow> nat \<Rightarrow> hit_state \<Rightarrow> hit_state) \<Rightarrow> HashMapKMA \<Rightarrow> int list \<Rightarrow> int list \<Rightarrow>
   int list \<Rightarrow> CompDNA \<Rightarrow> CompDNA \<Rightarrow> int list \<times> int list" where
  "rc_scan H templates bestTemplates Score template_lengths qseq_fw qseq_rc =
     (let F = fw_scan H templates bestTemplates Score qseq_fw
      in snd (kmers_pass H templates (DB_size templates) qseq_rc (seqend_of templates qseq_fw) (fst F)
                (sweep (threshold templates template_lengths) 0 (snd F))))"

definition reassign_kmers_with ::
  "(HashMapKMA \<Rightarrow> nat \<Rightarrow> nat \<Rightarrow> hit_state \<Rightarrow> hit_state) \<Rightarrow> HashMapKMA \<Rightarrow> int list \<Rightarrow> int list \<Rightarrow>
   int list \<Rightarrow> CompDNA \<Rightarrow> CompDNA \<Rightarrow> int \<times> int list \<times> int list" where
  "reassign_kmers_with H templates bestTemplates Score template_lengths qseq_fw qseq_rc =
     (let thr = threshold templates template_lengths in
      if prefix_len templates \<noteq> 0
      then
        case sweep thr 0 (prefix_scan H templates bestTemplates Score qseq_fw qseq_rc) of
          (Sc, bs) \<Rightarrow> (int_at bs 0, bs, Sc)
      else
        case (if prefix templates = 0
              then sweep thr (DB_size templates)
                     (rc_scan H templates bestTemplates Score template_lengths qseq_fw qseq_rc)
              else sweep thr 0 (snd (fw_scan H templates bestTemplates Score qseq_fw))) of
          (Sc, bs) \<Rightarrow>
            let bs1 = merge_matches (DB_size templates) bs in (int_at bs1 0, bs1, Sc))"

definition reassign_kmers ::
  "HashMapKMA \<Rightarrow> int list \<Rightarrow> int list \<Rightarrow> int list \<Rightarrow> CompDNA \<Rightarrow> CompDNA \<Rightarrow>
   int \<times> int list \<times> int list" where
  "reassign_kmers = reassign_kmers_with kmers_hit"

definition reassign_kmers_individual ::
  "HashMapKMA \<Rightarrow> int list \<Rightarrow> int list \<Rightarrow> int list \<Rightarrow> CompDNA \<Rightarrow> CompDNA \<Rightarrow>
   int \<times> int list \<times> int list" where
  "reassign_kmers_individual = reassign_kmers_with kmers_hit_individual"

text \<open>The ids listed in a buffer: the \<open>bs[b]\<close> entries after the count slot \<open>b\<close>.\<close>

definition listed :: "int list \<Rightarrow> nat \<Rightarrow> int list" where
  "listed bs b = map (\<lambda>i. int_at bs (int (b + i))) [1..<Suc (nat (int_at bs (int b)))]"

subsection \<open>A pass is a fold of the hit handler over its hits\<close>

text \<open>
  The hits of a pass depend on the sequence and the index only, not on the handler.
\<close>

definition hits_of :: "HashMapKMA \<Rightarrow> u64 \<Rightarrow> nat list" where
  "hits_of templates c = (case hashMap_get templates c of None \<Rightarrow> [] | Some values \<Rightarrow> [values])"

definition hit_vectors :: "HashMapKMA \<Rightarrow> nat set" where
  "hit_vectors templates = {v. \<exists>c. hashMap_get templates c = Some v}"

lemma hits_of_vectors: "set (hits_of templates c) \<subseteq> hit_vectors templates"
  by (auto simp: hits_of_def hit_vectors_def split: option.splits)

lemma lookup_fold: "lookup H templates b c hs = fold (H templates b) (hits_of templates c) hs"
  by (simp add: lookup_def hits_of_def split: option.splits)

lemma kmers_inner_fold:
  "\<exists>vs j1 ks1. set vs \<subseteq> hit_vectors templates \<and>
     (\<forall>H hs. kmers_inner H templates b sq e j ks hs = (j1, ks1, fold (H templates b) vs hs))"
proof (induction "nat (e - j)" arbitrary: j ks)
  case 0
  then have "\<not> j < e" by simp
  then have "\<forall>H hs. kmers_inner H templates b sq e j ks hs = (j, ks, fold (H templates b) [] hs)"
    by (subst kmers_inner.simps) simp
  then show ?case by (intro exI[of _ "[]"]) auto
next
  case (Suc n)
  then have lt: "j < e" by simp
  define ks' where "ks' = kmer_shift templates sq j ks"
  have "n = nat (e - (j + 1))" using Suc.hyps(2) by simp
  from Suc.hyps(1)[OF this, of ks']
  obtain vs j1 ks1 where sub: "set vs \<subseteq> hit_vectors templates" and
    ih: "\<And>H hs. kmers_inner H templates b sq e (j + 1) ks' hs = (j1, ks1, fold (H templates b) vs hs)"
    by blast
  have "kmers_inner H templates b sq e j ks hs =
          (j1, ks1, fold (H templates b) (hits_of templates (cmer ks') @ vs) hs)" for H hs
    using lt by (subst kmers_inner.simps) (simp add: Let_def ks'_def[symmetric] ih lookup_fold)
  moreover have "set (hits_of templates (cmer ks') @ vs) \<subseteq> hit_vectors templates"
    using sub hits_of_vectors[of templates "cmer ks'"] by simp
  ultimately show ?case by blast
qed

lemma kmers_stretches_fold:
  "\<exists>vs ks1. set vs \<subseteq> hit_vectors templates \<and>
     (\<forall>H hs. kmers_stretches H templates b sq Ns seqend i j ks hs = (ks1, fold (H templates b) vs hs))"
proof (induction "nat (int_at Ns 0 + 1 - i)" arbitrary: i j ks)
  case 0
  then have "\<not> i \<le> int_at Ns 0" by simp
  then have "\<forall>H hs. kmers_stretches H templates b sq Ns seqend i j ks hs = (ks, fold (H templates b) [] hs)"
    by (subst kmers_stretches.simps) simp
  then show ?case by (intro exI[of _ "[]"]) auto
next
  case (Suc n)
  show ?case
  proof (cases "i \<le> int_at Ns 0 \<and> j < seqend")
    case False
    then have "\<forall>H hs. kmers_stretches H templates b sq Ns seqend i j ks hs = (ks, fold (H templates b) [] hs)"
      by (subst kmers_stretches.simps) auto
    then show ?thesis by (intro exI[of _ "[]"]) auto
  next
    case True
    obtain vs1 j1 ks1 where sub1: "set vs1 \<subseteq> hit_vectors templates" and
      inner: "\<And>H hs. kmers_inner H templates b sq (int_at Ns i) (j + kmersize templates - 1)
                (kmer_start templates sq j ks) hs = (j1, ks1, fold (H templates b) vs1 hs)"
      using kmers_inner_fold[of templates b sq "int_at Ns i" "j + kmersize templates - 1"
               "kmer_start templates sq j ks"] by blast
    have "n = nat (int_at Ns 0 + 1 - (i + 1))" using Suc.hyps(2) by simp
    from Suc.hyps(1)[OF this, of j1 ks1]
    obtain vs2 ks2 where sub2: "set vs2 \<subseteq> hit_vectors templates" and
      ih: "\<And>H hs. kmers_stretches H templates b sq Ns seqend (i + 1) j1 ks1 hs =
             (ks2, fold (H templates b) vs2 hs)"
      by blast
    have "kmers_stretches H templates b sq Ns seqend i j ks hs =
            (ks2, fold (H templates b) (vs1 @ vs2) hs)" for H hs
      using True by (subst kmers_stretches.simps) (simp add: inner ih)
    moreover have "set (vs1 @ vs2) \<subseteq> hit_vectors templates" using sub1 sub2 by simp
    ultimately show ?thesis by blast
  qed
qed

lemma prefix_inner_fold:
  "\<exists>vs j1 ks1. set vs \<subseteq> hit_vectors templates \<and>
     (\<forall>H hs. prefix_inner H templates b sq e j ks hs = (j1, ks1, fold (H templates b) vs hs))"
proof (induction "nat (e - j)" arbitrary: j ks)
  case 0
  then have "\<not> j < e" by simp
  then have "\<forall>H hs. prefix_inner H templates b sq e j ks hs = (j, ks, fold (H templates b) [] hs)"
    by (subst prefix_inner.simps) simp
  then show ?case by (intro exI[of _ "[]"]) auto
next
  case (Suc n)
  then have lt: "j < e" by simp
  define ks1 where "ks1 = ks\<lparr>pmer := updateKmer (pmer ks) sq j (pmask templates)\<rparr>"
  define ks2 where "ks2 = kmer_read templates sq (j + 1) ks1"
  have n: "n = nat (e - (j + 1))" using Suc.hyps(2) by simp
  show ?case
  proof (cases "pmer ks1 = prefix templates")
    case True
    from Suc.hyps(1)[OF n, of ks2]
    obtain vs j1 ks3 where sub: "set vs \<subseteq> hit_vectors templates" and
      ih: "\<And>H hs. prefix_inner H templates b sq e (j + 1) ks2 hs = (j1, ks3, fold (H templates b) vs hs)"
      by blast
    have "prefix_inner H templates b sq e j ks hs =
          (j1, ks3, fold (H templates b) (hits_of templates (cmer ks2) @ vs) hs)" for H hs
      using lt True
      by (subst prefix_inner.simps)
         (simp add: Let_def ks1_def[symmetric] ks2_def[symmetric] ih lookup_fold)
    moreover have "set (hits_of templates (cmer ks2) @ vs) \<subseteq> hit_vectors templates"
      using sub hits_of_vectors[of templates "cmer ks2"] by simp
    ultimately show ?thesis by blast
  next
    case False
    from Suc.hyps(1)[OF n, of ks1]
    obtain vs j1 ks3 where sub: "set vs \<subseteq> hit_vectors templates" and
      ih: "\<And>H hs. prefix_inner H templates b sq e (j + 1) ks1 hs = (j1, ks3, fold (H templates b) vs hs)"
      by blast
    have "prefix_inner H templates b sq e j ks hs = (j1, ks3, fold (H templates b) vs hs)" for H hs
      using lt False
      by (subst prefix_inner.simps) (simp add: Let_def ks1_def[symmetric] ih)
    with sub show ?thesis by blast
  qed
qed

lemma prefix_stretches_fold:
  "\<exists>vs ks1. set vs \<subseteq> hit_vectors templates \<and>
     (\<forall>H hs. prefix_stretches H templates b sq Ns i j ks hs = (ks1, fold (H templates b) vs hs))"
proof (induction "nat (int_at Ns 0 + 1 - i)" arbitrary: i j ks)
  case 0
  then have "\<not> i \<le> int_at Ns 0" by simp
  then have "\<forall>H hs. prefix_stretches H templates b sq Ns i j ks hs = (ks, fold (H templates b) [] hs)"
    by (subst prefix_stretches.simps) simp
  then show ?case by (intro exI[of _ "[]"]) auto
next
  case (Suc n)
  then have le: "i \<le> int_at Ns 0" by simp
  obtain vs1 j1 ks1 where sub1: "set vs1 \<subseteq> hit_vectors templates" and
    inner: "\<And>H hs. prefix_inner H templates b sq (int_at Ns i - kmersize templates)
              (j + prefix_len templates - 1)
              (ks\<lparr>pmer := getKmer sq j (prefix_shifter templates + 2)\<rparr>) hs =
              (j1, ks1, fold (H templates b) vs1 hs)"
    using prefix_inner_fold[of templates b sq "int_at Ns i - kmersize templates"
             "j + prefix_len templates - 1"
             "ks\<lparr>pmer := getKmer sq j (prefix_shifter templates + 2)\<rparr>"] by blast
  have "n = nat (int_at Ns 0 + 1 - (i + 1))" using Suc.hyps(2) by simp
  from Suc.hyps(1)[OF this, of j1 ks1]
  obtain vs2 ks2 where sub2: "set vs2 \<subseteq> hit_vectors templates" and
    ih: "\<And>H hs. prefix_stretches H templates b sq Ns (i + 1) j1 ks1 hs =
           (ks2, fold (H templates b) vs2 hs)"
    by blast
  have "prefix_stretches H templates b sq Ns i j ks hs =
          (ks2, fold (H templates b) (vs1 @ vs2) hs)" for H hs
    using le by (subst prefix_stretches.simps) (simp add: inner ih del: add_2_eq_Suc add_2_eq_Suc')
  moreover have "set (vs1 @ vs2) \<subseteq> hit_vectors templates" using sub1 sub2 by simp
  ultimately show ?case by blast
qed

text \<open>A pass: the handler folded over the hits, then the flush of the pending run.\<close>

definition finish ::
  "(HashMapKMA \<Rightarrow> nat \<Rightarrow> nat \<Rightarrow> hit_state \<Rightarrow> hit_state) \<Rightarrow> HashMapKMA \<Rightarrow> nat \<Rightarrow> nat list \<Rightarrow>
   int list \<times> int list \<Rightarrow> int list \<times> int list" where
  "finish H templates b vs X =
     (let hs = flush_last templates b (fold (H templates b) vs (hit_state0 X))
      in (Scores hs, bests hs))"

lemma kmers_pass_fold:
  "\<exists>vs ks1. set vs \<subseteq> hit_vectors templates \<and>
     (\<forall>H X. kmers_pass H templates b qseq seqend ks X = (ks1, finish H templates b vs X))"
proof -
  obtain vs ks1 where sub: "set vs \<subseteq> hit_vectors templates" and
    "\<And>H hs. kmers_stretches H templates b (seq qseq) (with_sentinel qseq) seqend 1 0 ks hs =
        (ks1, fold (H templates b) vs hs)"
    using kmers_stretches_fold[of templates b "seq qseq" "with_sentinel qseq" seqend 1 0 ks] by blast
  then have "\<forall>H X. kmers_pass H templates b qseq seqend ks X = (ks1, finish H templates b vs X)"
    by (simp add: kmers_pass_def finish_def Let_def)
  with sub show ?thesis by blast
qed

lemma prefix_pass_fold:
  "\<exists>vs ks1. set vs \<subseteq> hit_vectors templates \<and>
     (\<forall>H X. prefix_pass H templates b qseq ks X = (ks1, finish H templates b vs X))"
proof -
  obtain vs ks1 where sub: "set vs \<subseteq> hit_vectors templates" and
    "\<And>H hs. prefix_stretches H templates b (seq qseq) (with_sentinel qseq) 1 0 ks hs =
        (ks1, fold (H templates b) vs hs)"
    using prefix_stretches_fold[of templates b "seq qseq" "with_sentinel qseq" 1 0 ks] by blast
  then have "\<forall>H X. prefix_pass H templates b qseq ks X = (ks1, finish H templates b vs X)"
    by (simp add: prefix_pass_def finish_def Let_def)
  with sub show ?thesis by blast
qed

subsection \<open>Flushing a vector\<close>

text \<open>
  The score update and the append of one id, and the scores as the scanner keeps them:
  never negative.
\<close>

definition add_score :: "int \<Rightarrow> nat \<Rightarrow> int list \<Rightarrow> int list" where
  "add_score r t Sc = Sc[t := int_at Sc (int t) + r]"

definition push :: "nat \<Rightarrow> nat \<Rightarrow> int list \<Rightarrow> int list" where
  "push b t bs = (bs[b := int_at bs (int b) + 1])[nat (int b + (int_at bs (int b) + 1)) := int t]"

definition nonneg :: "int list \<Rightarrow> bool" where
  "nonneg Sc \<longleftrightarrow> (\<forall>x\<in>set Sc. 0 \<le> x)"

lemma flush_id_eq:
  "flush_id b r t (Sc, bs) =
     (add_score r t Sc, if int_at Sc (int t) = 0 then push b t bs else bs)"
  by (simp add: flush_id_def add_score_def push_def Let_def)

lemma flush_ids_Nil [simp]: "flush_ids b r [] X = X"
  by (simp add: flush_ids_def)

lemma flush_ids_Cons:
  "flush_ids b r (t # ts) (Sc, bs) =
     flush_ids b r ts (add_score r t Sc, if int_at Sc (int t) = 0 then push b t bs else bs)"
  by (simp add: flush_ids_def flush_id_eq)

lemma length_add_score [simp]: "length (add_score r t Sc) = length Sc"
  by (simp add: add_score_def)

lemma int_at_add_score:
  "int_at (add_score r t Sc) u =
     (if u = int t \<and> t < length Sc then int_at Sc u + r else int_at Sc u)"
  by (auto simp: add_score_def int_at_def nth_list_update)

lemma nonneg_int_at: "nonneg Sc \<Longrightarrow> 0 \<le> int_at Sc u"
  by (auto simp: nonneg_def int_at_def)

lemma nonneg_add_score: "nonneg Sc \<Longrightarrow> 0 \<le> r \<Longrightarrow> nonneg (add_score r t Sc)"
  unfolding nonneg_def add_score_def
  by (auto simp: int_at_def dest!: set_update_subset_insert[THEN subsetD])

lemma fst_flush_ids: "fst (flush_ids b r ids (Sc, bs)) = fold (add_score r) ids Sc"
  by (induction ids arbitrary: Sc bs) (simp_all add: flush_ids_Cons)

lemma snd_flush_ids_zero_pattern:
  "1 \<le> r \<Longrightarrow> 1 \<le> r' \<Longrightarrow> nonneg Sc \<Longrightarrow> nonneg Sc' \<Longrightarrow> length Sc = length Sc' \<Longrightarrow>
   (\<forall>u. (int_at Sc u = 0) = (int_at Sc' u = 0)) \<Longrightarrow>
   snd (flush_ids b r ids (Sc, bs)) = snd (flush_ids b r' ids (Sc', bs))"
proof (induction ids arbitrary: Sc Sc' bs)
  case Nil
  then show ?case by simp
next
  case (Cons t ts)
  have pat: "\<forall>u. (int_at (add_score r t Sc) u = 0) = (int_at (add_score r' t Sc') u = 0)"
  proof
    fix u
    show "(int_at (add_score r t Sc) u = 0) = (int_at (add_score r' t Sc') u = 0)"
      using Cons.prems nonneg_int_at[of Sc u] nonneg_int_at[of Sc' u]
      by (auto simp: int_at_add_score)
  qed
  have same: "(int_at Sc (int t) = 0) = (int_at Sc' (int t) = 0)" using Cons.prems by blast
  have "snd (flush_ids b r ts (add_score r t Sc, bs')) =
        snd (flush_ids b r' ts (add_score r' t Sc', bs'))" for bs'
    using Cons.prems pat by (intro Cons.IH) (auto intro: nonneg_add_score)
  with same show ?case by (simp add: flush_ids_Cons)
qed

lemma snd_flush_ids_nonzero:
  "(\<forall>t\<in>set ids. int_at Sc (int t) \<noteq> 0) \<Longrightarrow> nonneg Sc \<Longrightarrow> 0 \<le> r \<Longrightarrow>
   snd (flush_ids b r ids (Sc, bs)) = bs"
proof (induction ids arbitrary: Sc)
  case Nil
  then show ?case by simp
next
  case (Cons t ts)
  have "\<forall>u\<in>set ts. int_at (add_score r t Sc) (int u) \<noteq> 0"
  proof
    fix u assume "u \<in> set ts"
    then have "int_at Sc (int u) \<noteq> 0" using Cons.prems by simp
    then show "int_at (add_score r t Sc) (int u) \<noteq> 0"
      using nonneg_int_at[OF Cons.prems(2), of "int u"] Cons.prems(3)
      by (auto simp: int_at_add_score)
  qed
  then have "snd (flush_ids b r ts (add_score r t Sc, bs)) = bs"
    using Cons.prems by (intro Cons.IH) (auto intro: nonneg_add_score)
  with Cons.prems show ?case by (simp add: flush_ids_Cons)
qed

lemma add_score_commute:
  "add_score a t (add_score c u Sc) = add_score c u (add_score a t Sc)"
  by (cases "t = u")
     (auto simp: add_score_def int_at_def list_update_swap nth_list_update list_update_beyond
           algebra_simps)

lemma add_score_fold_commute:
  "add_score a t (fold (add_score c) us Sc) = fold (add_score c) us (add_score a t Sc)"
  by (induction us arbitrary: Sc) (simp_all add: add_score_commute)

lemma add_score_add:
  "t < length Sc \<Longrightarrow> add_score a t (add_score c t Sc) = add_score (c + a) t Sc"
  by (simp add: add_score_def int_at_def algebra_simps)

lemma length_fold_add_score [simp]: "length (fold (add_score r) ids Sc) = length Sc"
  by (induction ids arbitrary: Sc) simp_all

lemma fold_add_score_twice:
  "(\<forall>t\<in>set ids. t < length Sc) \<Longrightarrow>
   fold (add_score 1) ids (fold (add_score r) ids Sc) = fold (add_score (r + 1)) ids Sc"
proof (induction ids arbitrary: Sc)
  case Nil
  then show ?case by simp
next
  case (Cons t ts)
  have "fold (add_score 1) (t # ts) (fold (add_score r) (t # ts) Sc) =
        fold (add_score 1) ts (add_score 1 t (fold (add_score r) ts (add_score r t Sc)))"
    by simp
  also have "\<dots> = fold (add_score 1) ts (fold (add_score r) ts (add_score 1 t (add_score r t Sc)))"
    by (simp add: add_score_fold_commute)
  also have "\<dots> = fold (add_score 1) ts (fold (add_score r) ts (add_score (r + 1) t Sc))"
    using Cons.prems by (simp add: add_score_add)
  also have "\<dots> = fold (add_score (r + 1)) ts (add_score (r + 1) t Sc)"
    using Cons.prems by (intro Cons.IH) simp
  finally show ?case by simp
qed

lemma nonneg_fold_add_score:
  "nonneg Sc \<Longrightarrow> 0 \<le> r \<Longrightarrow> nonneg (fold (add_score r) ids Sc)"
  by (induction ids arbitrary: Sc) (simp_all add: nonneg_add_score)

lemma int_at_fold_add_score_mono:
  "0 \<le> r \<Longrightarrow> int_at Sc u \<le> int_at (fold (add_score r) ids Sc) u"
proof (induction ids arbitrary: Sc)
  case Nil
  then show ?case by simp
next
  case (Cons t ts)
  have "int_at Sc u \<le> int_at (add_score r t Sc) u"
    using Cons.prems by (simp add: int_at_add_score)
  also have "\<dots> \<le> int_at (fold (add_score r) ts (add_score r t Sc)) u"
    using Cons.prems by (intro Cons.IH)
  finally show ?case by simp
qed

lemma int_at_fold_add_score_hit:
  "1 \<le> r \<Longrightarrow> nonneg Sc \<Longrightarrow> t \<in> set ids \<Longrightarrow> t < length Sc \<Longrightarrow>
   int_at (fold (add_score r) ids Sc) (int t) \<noteq> 0"
proof (induction ids arbitrary: Sc)
  case Nil
  then show ?case by simp
next
  case (Cons u us)
  show ?case
  proof (cases "t = u")
    case True
    have "1 \<le> int_at (add_score r u Sc) (int t)"
      using Cons.prems True nonneg_int_at[OF Cons.prems(2), of "int t"]
      by (simp add: int_at_add_score)
    also have "\<dots> \<le> int_at (fold (add_score r) us (add_score r u Sc)) (int t)"
      using Cons.prems by (intro int_at_fold_add_score_mono) simp
    finally show ?thesis by simp
  next
    case False
    with Cons.prems have "t \<in> set us" by simp
    then have "int_at (fold (add_score r) us (add_score r u Sc)) (int t) \<noteq> 0"
      using Cons.prems by (intro Cons.IH) (auto intro: nonneg_add_score)
    then show ?thesis by simp
  qed
qed

lemma flush_ids_twice:
  assumes r: "1 \<le> r" and nn: "nonneg Sc" and rng: "\<forall>t\<in>set ids. t < length Sc"
  shows "flush_ids b 1 ids (flush_ids b r ids (Sc, bs)) = flush_ids b (r + 1) ids (Sc, bs)"
proof -
  define Sc1 where "Sc1 = fold (add_score r) ids Sc"
  define bs1 where "bs1 = snd (flush_ids b r ids (Sc, bs))"
  have first: "flush_ids b r ids (Sc, bs) = (Sc1, bs1)"
    by (intro prod_eqI) (simp_all add: Sc1_def bs1_def fst_flush_ids)
  have nz: "\<forall>t\<in>set ids. int_at Sc1 (int t) \<noteq> 0"
    unfolding Sc1_def using int_at_fold_add_score_hit[OF r nn] rng by blast
  have nn1: "nonneg Sc1" unfolding Sc1_def using nn r by (intro nonneg_fold_add_score) auto
  have "snd (flush_ids b 1 ids (Sc1, bs1)) = bs1"
    using nz nn1 by (intro snd_flush_ids_nonzero) auto
  moreover have "fst (flush_ids b 1 ids (Sc1, bs1)) = fold (add_score (r + 1)) ids Sc"
    unfolding fst_flush_ids Sc1_def using rng by (rule fold_add_score_twice)
  moreover have "snd (flush_ids b (r + 1) ids (Sc, bs)) = bs1"
    unfolding bs1_def using r nn by (intro snd_flush_ids_zero_pattern) auto
  moreover have "fst (flush_ids b (r + 1) ids (Sc, bs)) = fold (add_score (r + 1)) ids Sc"
    by (rule fst_flush_ids)
  ultimately show ?thesis
    unfolding first by (intro prod_eqI) simp_all
qed

subsection \<open>The pending run\<close>

text \<open>
  Every stored id is a template id: positive and below the number of templates.
  \<open>commit\<close> is the state with the pending run flushed; the compressed scanner, once
  committed, is where the individual scanner is.
\<close>

definition vectors_ok :: "HashMapKMA \<Rightarrow> nat \<Rightarrow> bool" where
  "vectors_ok templates n \<longleftrightarrow>
     (\<forall>c v. hashMap_get templates c = Some v \<longrightarrow> (\<forall>t\<in>set (vector_at templates v). 0 < t \<and> t < n))"

lemma vectors_okD:
  "vectors_ok templates n \<Longrightarrow> v \<in> hit_vectors templates \<Longrightarrow> t \<in> set (vector_at templates v) \<Longrightarrow>
   0 < t \<and> t < n"
  unfolding vectors_ok_def hit_vectors_def by blast

definition commit :: "HashMapKMA \<Rightarrow> nat \<Rightarrow> hit_state \<Rightarrow> int list \<times> int list" where
  "commit templates b hs = (Scores (flush_last templates b hs), bests (flush_last templates b hs))"

definition pending_ok :: "HashMapKMA \<Rightarrow> hit_state \<Rightarrow> bool" where
  "pending_ok templates hs \<longleftrightarrow>
     nonneg (Scores hs) \<and>
     (case last_v hs of None \<Rightarrow> True | Some l \<Rightarrow> 1 \<le> reps hs \<and> l \<in> hit_vectors templates)"

lemma flush_last_alt:
  "flush_last templates b hs =
     (case last_v hs of
        None \<Rightarrow> hs
      | Some l \<Rightarrow>
          hs\<lparr>Scores := fst (flush_ids b (reps hs) (vector_at templates l) (Scores hs, bests hs)),
             bests := snd (flush_ids b (reps hs) (vector_at templates l) (Scores hs, bests hs))\<rparr>)"
  by (simp add: flush_last_def split: option.splits prod.splits)

lemma kmers_hit_individual_alt:
  "kmers_hit_individual templates b v hs =
     hs\<lparr>Scores := fst (flush_ids b 1 (vector_at templates v) (Scores hs, bests hs)),
        bests := snd (flush_ids b 1 (vector_at templates v) (Scores hs, bests hs))\<rparr>"
  by (simp add: kmers_hit_individual_def split: prod.splits)

lemma commit_None: "last_v hs = None \<Longrightarrow> commit templates b hs = (Scores hs, bests hs)"
  by (simp add: commit_def flush_last_def)

lemma commit_Some:
  "last_v hs = Some l \<Longrightarrow>
   commit templates b hs = flush_ids b (reps hs) (vector_at templates l) (Scores hs, bests hs)"
  by (simp add: commit_def flush_last_def split: prod.splits)

lemma length_fst_flush_ids [simp]: "length (fst (flush_ids b r ids (Sc, bs))) = length Sc"
  by (simp add: fst_flush_ids)

lemma nonneg_fst_flush_ids: "nonneg Sc \<Longrightarrow> 0 \<le> r \<Longrightarrow> nonneg (fst (flush_ids b r ids (Sc, bs)))"
  by (simp add: fst_flush_ids nonneg_fold_add_score)

lemma kmers_hit_commit:
  assumes ok: "vectors_ok templates (length (Scores hs))" and p: "pending_ok templates hs"
    and v: "v \<in> hit_vectors templates"
  shows "pending_ok templates (kmers_hit templates b v hs) \<and>
         length (Scores (kmers_hit templates b v hs)) = length (Scores hs) \<and>
         commit templates b (kmers_hit templates b v hs) =
           flush_ids b 1 (vector_at templates v) (commit templates b hs)"
proof (cases "Some v = last_v hs")
  case True
  then have l: "last_v hs = Some v" by simp
  from p l have r: "1 \<le> reps hs" and nn: "nonneg (Scores hs)"
    by (simp_all add: pending_ok_def)
  have rng: "\<forall>t\<in>set (vector_at templates v). t < length (Scores hs)"
    using vectors_okD[OF ok v] by blast
  have hit: "kmers_hit templates b v hs = hs\<lparr>reps := reps hs + 1\<rparr>"
    using True by (simp add: kmers_hit_def)
  have "commit templates b (hs\<lparr>reps := reps hs + 1\<rparr>) =
        flush_ids b (reps hs + 1) (vector_at templates v) (Scores hs, bests hs)"
    using l by (simp add: commit_Some)
  also have "\<dots> = flush_ids b 1 (vector_at templates v)
                      (flush_ids b (reps hs) (vector_at templates v) (Scores hs, bests hs))"
    by (rule flush_ids_twice[OF r nn rng, symmetric])
  also have "\<dots> = flush_ids b 1 (vector_at templates v) (commit templates b hs)"
    using l by (simp add: commit_Some)
  finally show ?thesis
    using p l r v by (simp add: hit pending_ok_def)
next
  case False
  define hs1 where "hs1 = flush_last templates b hs"
  have hit: "kmers_hit templates b v hs = hs1\<lparr>reps := 1, last_v := Some v\<rparr>"
    using False by (simp add: kmers_hit_def hs1_def)
  have c: "(Scores hs1, bests hs1) = commit templates b hs" by (simp add: commit_def hs1_def)
  have nn1: "nonneg (Scores hs1) \<and> length (Scores hs1) = length (Scores hs)"
  proof (cases "last_v hs")
    case None
    then show ?thesis using p by (simp add: hs1_def flush_last_def pending_ok_def)
  next
    case (Some l)
    with p have "1 \<le> reps hs" "nonneg (Scores hs)" by (simp_all add: pending_ok_def)
    then have "nonneg (fst (flush_ids b (reps hs) (vector_at templates l) (Scores hs, bests hs)))"
      by (intro nonneg_fst_flush_ids) auto
    then show ?thesis using Some by (simp add: hs1_def flush_last_alt)
  qed
  have "commit templates b (hs1\<lparr>reps := 1, last_v := Some v\<rparr>) =
        flush_ids b 1 (vector_at templates v) (Scores hs1, bests hs1)"
    by (simp add: commit_Some)
  with c nn1 v show ?thesis by (simp add: hit pending_ok_def)
qed

lemma fold_kmers_hit_commit:
  "vectors_ok templates (length (Scores hs)) \<Longrightarrow> pending_ok templates hs \<Longrightarrow>
   set vs \<subseteq> hit_vectors templates \<Longrightarrow>
   commit templates b (fold (kmers_hit templates b) vs hs) =
     fold (\<lambda>v. flush_ids b 1 (vector_at templates v)) vs (commit templates b hs)"
proof (induction vs arbitrary: hs)
  case Nil
  then show ?case by simp
next
  case (Cons v vs)
  then have v: "v \<in> hit_vectors templates" by simp
  note step = kmers_hit_commit[OF Cons.prems(1,2) v, of b]
  have "commit templates b (fold (kmers_hit templates b) vs (kmers_hit templates b v hs)) =
        fold (\<lambda>v. flush_ids b 1 (vector_at templates v)) vs
          (commit templates b (kmers_hit templates b v hs))"
    using Cons.prems step by (intro Cons.IH) auto
  with step show ?case by simp
qed

lemma fold_kmers_hit_individual:
  "fold (kmers_hit_individual templates b) vs hs =
     hs\<lparr>Scores := fst (fold (\<lambda>v. flush_ids b 1 (vector_at templates v)) vs (Scores hs, bests hs)),
        bests := snd (fold (\<lambda>v. flush_ids b 1 (vector_at templates v)) vs (Scores hs, bests hs))\<rparr>"
proof (induction vs arbitrary: hs)
  case Nil
  then show ?case by simp
next
  case (Cons v vs)
  let ?f = "kmers_hit_individual templates b"
  let ?G = "fold (\<lambda>v. flush_ids b 1 (vector_at templates v)) vs"
  have "fold ?f (v # vs) hs = fold ?f vs (?f v hs)" by simp
  also have "\<dots> = (?f v hs)\<lparr>Scores := fst (?G (Scores (?f v hs), bests (?f v hs))),
                               bests := snd (?G (Scores (?f v hs), bests (?f v hs)))\<rparr>"
    by (rule Cons.IH)
  also have "\<dots> = hs\<lparr>Scores := fst (?G (flush_ids b 1 (vector_at templates v) (Scores hs, bests hs))),
                       bests := snd (?G (flush_ids b 1 (vector_at templates v) (Scores hs, bests hs)))\<rparr>"
    unfolding kmers_hit_individual_alt by simp
  finally show ?case by simp
qed

lemma finish_individual:
  "finish kmers_hit_individual templates b vs X =
     fold (\<lambda>v. flush_ids b 1 (vector_at templates v)) vs X"
  unfolding finish_def fold_kmers_hit_individual
  by (simp add: hit_state0_def flush_last_def Let_def)

lemma finish_compressed:
  assumes "vectors_ok templates (length (fst X))" "nonneg (fst X)" "set vs \<subseteq> hit_vectors templates"
  shows "finish kmers_hit templates b vs X =
     fold (\<lambda>v. flush_ids b 1 (vector_at templates v)) vs X"
proof -
  have "commit templates b (fold (kmers_hit templates b) vs (hit_state0 X)) =
        fold (\<lambda>v. flush_ids b 1 (vector_at templates v)) vs (commit templates b (hit_state0 X))"
    using assms by (intro fold_kmers_hit_commit) (simp_all add: hit_state0_def pending_ok_def)
  then show ?thesis
    by (simp add: finish_def commit_def Let_def hit_state0_def flush_last_def)
qed

subsection \<open>Both scanners compute the same\<close>

lemma nonneg_update: "nonneg Sc \<Longrightarrow> 0 \<le> x \<Longrightarrow> nonneg (Sc[i := x])"
  unfolding nonneg_def by (auto dest!: set_update_subset_insert[THEN subsetD])

lemma fold_flush_props:
  "nonneg (fst X) \<Longrightarrow>
   nonneg (fst (fold (\<lambda>v. flush_ids b 1 (vector_at templates v)) vs X)) \<and>
   length (fst (fold (\<lambda>v. flush_ids b 1 (vector_at templates v)) vs X)) = length (fst X)"
proof (induction vs arbitrary: X)
  case Nil
  then show ?case by simp
next
  case (Cons v vs)
  obtain Sc bs where X: "X = (Sc, bs)" by (cases X)
  have "nonneg (fst (flush_ids b 1 (vector_at templates v) X))"
    using Cons.prems unfolding X by (intro nonneg_fst_flush_ids) auto
  from Cons.IH[OF this] show ?case by (simp add: X)
qed

lemma sweep_while_props:
  "nonneg (fst X) \<Longrightarrow>
   nonneg (fst (sweep_while thr b n vi li X)) \<and>
   length (fst (sweep_while thr b n vi li X)) = length (fst X)"
proof (induction n arbitrary: X vi li)
  case 0
  then show ?case by simp
next
  case (Suc n)
  show ?case
    using Suc.prems by (simp add: Let_def Suc.IH nonneg_update)
qed

lemma sweep_props:
  "nonneg (fst X) \<Longrightarrow> nonneg (fst (sweep thr b X)) \<and> length (fst (sweep thr b X)) = length (fst X)"
  unfolding sweep_def by (rule sweep_while_props)

lemma kmers_pass_eq:
  assumes "vectors_ok templates (length (fst X))" "nonneg (fst X)"
  shows "kmers_pass kmers_hit templates b qseq seqend ks X =
         kmers_pass kmers_hit_individual templates b qseq seqend ks X"
proof -
  obtain vs ks1 where sub: "set vs \<subseteq> hit_vectors templates" and
    p: "\<And>H X. kmers_pass H templates b qseq seqend ks X = (ks1, finish H templates b vs X)"
    using kmers_pass_fold[of templates b qseq seqend ks] by blast
  show ?thesis
    unfolding p finish_compressed[OF assms sub] finish_individual ..
qed

lemma prefix_pass_eq:
  assumes "vectors_ok templates (length (fst X))" "nonneg (fst X)"
  shows "prefix_pass kmers_hit templates b qseq ks X =
         prefix_pass kmers_hit_individual templates b qseq ks X"
proof -
  obtain vs ks1 where sub: "set vs \<subseteq> hit_vectors templates" and
    p: "\<And>H X. prefix_pass H templates b qseq ks X = (ks1, finish H templates b vs X)"
    using prefix_pass_fold[of templates b qseq ks] by blast
  show ?thesis
    unfolding p finish_compressed[OF assms sub] finish_individual ..
qed

lemma kmers_pass_individual_props:
  assumes "nonneg (fst X)"
  shows "nonneg (fst (snd (kmers_pass kmers_hit_individual templates b qseq seqend ks X))) \<and>
         length (fst (snd (kmers_pass kmers_hit_individual templates b qseq seqend ks X))) = length (fst X)"
proof -
  obtain vs ks1 where
    p: "\<And>H X. kmers_pass H templates b qseq seqend ks X = (ks1, finish H templates b vs X)"
    using kmers_pass_fold[of templates b qseq seqend ks] by blast
  show ?thesis
    unfolding p finish_individual using fold_flush_props[OF assms] by simp
qed

lemma prefix_pass_individual_props:
  assumes "nonneg (fst X)"
  shows "nonneg (fst (snd (prefix_pass kmers_hit_individual templates b qseq ks X))) \<and>
         length (fst (snd (prefix_pass kmers_hit_individual templates b qseq ks X))) = length (fst X)"
proof -
  obtain vs ks1 where
    p: "\<And>H X. prefix_pass H templates b qseq ks X = (ks1, finish H templates b vs X)"
    using prefix_pass_fold[of templates b qseq ks] by blast
  show ?thesis
    unfolding p finish_individual using fold_flush_props[OF assms] by simp
qed

lemma fw_scan_eq:
  assumes "vectors_ok templates (length Score)" "nonneg Score"
  shows "fw_scan kmers_hit templates bestTemplates Score qseq_fw =
         fw_scan kmers_hit_individual templates bestTemplates Score qseq_fw"
  unfolding fw_scan_def using assms by (intro kmers_pass_eq) simp_all

lemma rc_scan_eq:
  assumes ok: "vectors_ok templates (length Score)" and nn: "nonneg Score"
  shows "rc_scan kmers_hit templates bestTemplates Score template_lengths qseq_fw qseq_rc =
         rc_scan kmers_hit_individual templates bestTemplates Score template_lengths qseq_fw qseq_rc"
proof -
  define F where "F = fw_scan kmers_hit_individual templates bestTemplates Score qseq_fw"
  have "nonneg (fst (snd F)) \<and> length (fst (snd F)) = length Score"
    using kmers_pass_individual_props[of "(Score, kmers_init templates bestTemplates)" templates 0 qseq_fw
            "seqend_of templates qseq_fw" "kmer_state0 templates"] nn
    unfolding F_def fw_scan_def by simp
  then have "nonneg (fst (sweep (threshold templates template_lengths) 0 (snd F))) \<and>
             length (fst (sweep (threshold templates template_lengths) 0 (snd F))) = length Score"
    using sweep_props[of "snd F"] by simp
  then show ?thesis
    unfolding rc_scan_def fw_scan_eq[OF ok nn] F_def[symmetric] Let_def using ok
    by (simp add: kmers_pass_eq)
qed

lemma prefix_scan_eq:
  assumes ok: "vectors_ok templates (length Score)" and nn: "nonneg Score"
  shows "prefix_scan kmers_hit templates bestTemplates Score qseq_fw qseq_rc =
         prefix_scan kmers_hit_individual templates bestTemplates Score qseq_fw qseq_rc"
proof -
  let ?X0 = "(Score, kmers_init templates bestTemplates)"
  define P1 where "P1 = prefix_pass kmers_hit_individual templates 0 qseq_fw (kmer_state0 templates) ?X0"
  have fw': "prefix_pass kmers_hit templates 0 qseq_fw (kmer_state0 templates) ?X0 = P1"
    using prefix_pass_eq[of templates ?X0 0 qseq_fw "kmer_state0 templates"] ok nn
    by (simp add: P1_def)
  have "nonneg (fst (snd P1)) \<and> length (fst (snd P1)) = length Score"
    using prefix_pass_individual_props[of ?X0 templates 0 qseq_fw "kmer_state0 templates"] nn
    by (simp add: P1_def)
  then show ?thesis
    unfolding prefix_scan_def fw' P1_def[symmetric] Let_def using ok by (simp add: prefix_pass_eq)
qed

lemma reassign_kmers_individual_eq:
  assumes ok: "vectors_ok templates (length Score)" and nn: "nonneg Score"
  shows "reassign_kmers templates bestTemplates Score template_lengths qseq_fw qseq_rc =
         reassign_kmers_individual templates bestTemplates Score template_lengths qseq_fw qseq_rc"
  unfolding reassign_kmers_def reassign_kmers_individual_def reassign_kmers_with_def
    fw_scan_eq[OF ok nn] rc_scan_eq[OF ok nn] prefix_scan_eq[OF ok nn] ..

subsection \<open>The candidate buffer\<close>

text \<open>
  \<open>frame\<close>: only the slots of the bucket at \<open>b\<close> have changed.  \<open>bucket_ok\<close>: the
  bucket lists, without repetition, exactly the templates with a nonzero score.
\<close>

definition frame :: "nat \<Rightarrow> nat \<Rightarrow> int list \<Rightarrow> int list \<Rightarrow> bool" where
  "frame b DB bs bs' \<longleftrightarrow> length bs' = length bs \<and> (\<forall>i. i < b \<or> b + DB \<le> i \<longrightarrow> bs' ! i = bs ! i)"

definition bucket_ok :: "nat \<Rightarrow> nat \<Rightarrow> int list \<Rightarrow> int list \<Rightarrow> bool" where
  "bucket_ok b DB Sc bs \<longleftrightarrow>
     length Sc = DB \<and> b + DB < length bs \<and> 0 \<le> bs ! b \<and> distinct (listed bs b) \<and>
     (\<forall>x\<in>set (listed bs b). 0 < x \<and> x < int DB) \<and>
     (\<forall>t<DB. (Sc ! t \<noteq> 0) = (int t \<in> set (listed bs b))) \<and> nonneg Sc"

lemma frame_refl [simp]: "frame b DB bs bs"
  by (simp add: frame_def)

lemma frame_trans: "frame b DB bs bs1 \<Longrightarrow> frame b DB bs1 bs2 \<Longrightarrow> frame b DB bs bs2"
  by (simp add: frame_def)

lemma int_at_nth: "i < length xs \<Longrightarrow> int_at xs (int i) = xs ! i"
  by (simp add: int_at_def)

lemma listed_nth:
  "b + nat (bs ! b) < length bs \<Longrightarrow> listed bs b = map (\<lambda>i. bs ! (b + i)) [1..<Suc (nat (bs ! b))]"
  by (auto simp: listed_def int_at_def nat_add_distrib)

lemma length_listed [simp]: "length (listed bs b) = nat (int_at bs (int b))"
  by (simp add: listed_def)

lemma bucket_count_le:
  assumes "bucket_ok b DB Sc bs"
  shows "nat (bs ! b) \<le> DB - 1"
proof -
  from assms have d: "distinct (listed bs b)"
    and r: "\<forall>x\<in>set (listed bs b). 0 < x \<and> x < int DB"
    and len: "b + DB < length bs"
    by (simp_all add: bucket_ok_def)
  have "set (listed bs b) \<subseteq> {0<..<int DB}" using r by auto
  then have "card (set (listed bs b)) \<le> card {0<..<int DB}"
    by (intro card_mono) auto
  then have "length (listed bs b) \<le> DB - 1"
    using distinct_card[OF d] by simp
  then show ?thesis using len by (simp add: int_at_nth)
qed

lemma push_props:
  assumes c: "0 \<le> bs ! b" and len: "b + nat (bs ! b) + 1 < length bs"
  shows "listed (push b t bs) b = listed bs b @ [int t]"
    and "length (push b t bs) = length bs"
    and "push b t bs ! b = bs ! b + 1"
    and "\<And>i. i < b \<or> b + nat (bs ! b) + 1 < i \<Longrightarrow> push b t bs ! i = bs ! i"
proof -
  define cnt where "cnt = nat (bs ! b)"
  have bsb: "bs ! b = int cnt" using c by (simp add: cnt_def)
  have ib: "int_at bs (int b) = int cnt" using len bsb by (simp add: int_at_nth)
  have p: "push b t bs = (bs[b := int cnt + 1])[b + cnt + 1 := int t]"
    by (simp add: push_def ib nat_add_distrib)
  show l: "length (push b t bs) = length bs" by (simp add: p)
  show pb: "push b t bs ! b = bs ! b + 1" using len by (simp add: p bsb cnt_def[symmetric])
  show "\<And>i. i < b \<or> b + nat (bs ! b) + 1 < i \<Longrightarrow> push b t bs ! i = bs ! i"
    by (auto simp: p cnt_def[symmetric])
  have "listed (push b t bs) b = map (\<lambda>i. push b t bs ! (b + i)) [1..<Suc (cnt + 1)]"
    using len by (subst listed_nth) (simp_all add: l pb bsb cnt_def[symmetric] nat_add_distrib)
  also have "\<dots> = map (\<lambda>i. bs ! (b + i)) [1..<Suc cnt] @ [int t]"
    using len by (auto simp: p cnt_def[symmetric] nth_list_update)
  also have "map (\<lambda>i. bs ! (b + i)) [1..<Suc cnt] = listed bs b"
    using len by (subst listed_nth) (simp_all add: cnt_def)
  finally show "listed (push b t bs) b = listed bs b @ [int t]" .
qed

lemma flush_id_bucket:
  assumes ok: "bucket_ok b DB Sc bs" and t: "0 < t" "t < DB" and r: "1 \<le> r"
  shows "bucket_ok b DB (fst (flush_id b r t (Sc, bs))) (snd (flush_id b r t (Sc, bs))) \<and>
         frame b DB bs (snd (flush_id b r t (Sc, bs)))"
proof -
  from ok have len: "length Sc = DB" "b + DB < length bs" and c: "0 \<le> bs ! b"
    and d: "distinct (listed bs b)" and rng: "\<forall>x\<in>set (listed bs b). 0 < x \<and> x < int DB"
    and iff: "\<forall>u<DB. (Sc ! u \<noteq> 0) = (int u \<in> set (listed bs b))" and nn: "nonneg Sc"
    by (simp_all add: bucket_ok_def)
  have cnt: "b + nat (bs ! b) + 1 < length bs"
    using bucket_count_le[OF ok] len t by simp
  have at: "int_at Sc (int t) = Sc ! t" using t len by (simp add: int_at_nth)
  have nn1: "nonneg (add_score r t Sc)" using nn r by (intro nonneg_add_score) auto
  have sc: "\<And>u. u < DB \<Longrightarrow> add_score r t Sc ! u = (if u = t then Sc ! t + r else Sc ! u)"
    using len by (simp add: add_score_def at)
  have pos: "0 \<le> Sc ! t" using nonneg_int_at[OF nn, of "int t"] at by simp
  show ?thesis
  proof (cases "Sc ! t = 0")
    case True
    then have notin: "int t \<notin> set (listed bs b)" using iff t by blast
    have res: "flush_id b r t (Sc, bs) = (add_score r t Sc, push b t bs)"
      using True at by (simp add: flush_id_eq)
    note pp = push_props[OF c cnt, where t = t]
    have "bucket_ok b DB (add_score r t Sc) (push b t bs)"
      unfolding bucket_ok_def
    proof (intro conjI)
      show "\<forall>u<DB. (add_score r t Sc ! u \<noteq> 0) = (int u \<in> set (listed (push b t bs) b))"
        using iff True r by (auto simp: sc pp(1))
    qed (use len c d rng notin t nn1 in \<open>auto simp: pp\<close>)
    moreover have "frame b DB bs (push b t bs)"
      unfolding frame_def
    proof (intro conjI allI impI)
      fix i assume i: "i < b \<or> b + DB \<le> i"
      have "set (listed bs b) \<subseteq> {0<..<int DB} - {int t}" using rng notin by auto
      then have "card (set (listed bs b)) \<le> card ({0<..<int DB} - {int t})"
        by (intro card_mono) auto
      also have "\<dots> = DB - 2" using t by simp
      finally have "length (listed bs b) \<le> DB - 2" using distinct_card[OF d] by simp
      then have "nat (bs ! b) + 1 < DB" using len t by (simp add: int_at_nth)
      with i have "i < b \<or> b + nat (bs ! b) + 1 < i" by auto
      then show "push b t bs ! i = bs ! i" by (rule pp(4))
    qed (rule pp(2))
    ultimately show ?thesis by (simp add: res)
  next
    case False
    have res: "flush_id b r t (Sc, bs) = (add_score r t Sc, bs)"
      using False at by (simp add: flush_id_eq)
    have "bucket_ok b DB (add_score r t Sc) bs"
      unfolding bucket_ok_def
    proof (intro conjI)
      show "\<forall>u<DB. (add_score r t Sc ! u \<noteq> 0) = (int u \<in> set (listed bs b))"
        using iff False r pos t by (auto simp: sc)
    qed (use len c d rng nn1 in auto)
    then show ?thesis by (simp add: res)
  qed
qed

lemma flush_ids_bucket:
  "bucket_ok b DB Sc bs \<Longrightarrow> (\<forall>t\<in>set ids. 0 < t \<and> t < DB) \<Longrightarrow> 1 \<le> r \<Longrightarrow>
   bucket_ok b DB (fst (flush_ids b r ids (Sc, bs))) (snd (flush_ids b r ids (Sc, bs))) \<and>
   frame b DB bs (snd (flush_ids b r ids (Sc, bs)))"
proof (induction ids arbitrary: Sc bs)
  case Nil
  then show ?case by simp
next
  case (Cons t ts)
  define X1 where "X1 = flush_id b r t (Sc, bs)"
  have s1: "bucket_ok b DB (fst X1) (snd X1) \<and> frame b DB bs (snd X1)"
    unfolding X1_def using Cons.prems by (intro flush_id_bucket) auto
  have "bucket_ok b DB (fst (flush_ids b r ts (fst X1, snd X1)))
          (snd (flush_ids b r ts (fst X1, snd X1))) \<and>
        frame b DB (snd X1) (snd (flush_ids b r ts (fst X1, snd X1)))"
    using s1 Cons.prems by (intro Cons.IH) auto
  moreover have "flush_ids b r (t # ts) (Sc, bs) = flush_ids b r ts (fst X1, snd X1)"
    by (simp add: flush_ids_def X1_def)
  ultimately show ?case using s1 frame_trans by metis
qed

lemma fold_flush_bucket:
  "bucket_ok b DB (fst X) (snd X) \<Longrightarrow> vectors_ok templates DB \<Longrightarrow> set vs \<subseteq> hit_vectors templates \<Longrightarrow>
   bucket_ok b DB (fst (fold (\<lambda>v. flush_ids b 1 (vector_at templates v)) vs X))
     (snd (fold (\<lambda>v. flush_ids b 1 (vector_at templates v)) vs X)) \<and>
   frame b DB (snd X) (snd (fold (\<lambda>v. flush_ids b 1 (vector_at templates v)) vs X))"
proof (induction vs arbitrary: X)
  case Nil
  then show ?case by simp
next
  case (Cons v vs)
  define X1 where "X1 = flush_ids b 1 (vector_at templates v) X"
  have ids: "\<forall>t\<in>set (vector_at templates v). 0 < t \<and> t < DB"
    using vectors_okD[OF Cons.prems(2)] Cons.prems(3) by auto
  have s1: "bucket_ok b DB (fst X1) (snd X1) \<and> frame b DB (snd X) (snd X1)"
    unfolding X1_def using flush_ids_bucket[OF _ ids, of b "fst X" "snd X" 1] Cons.prems(1)
    by simp
  have "bucket_ok b DB (fst (fold (\<lambda>v. flush_ids b 1 (vector_at templates v)) vs X1))
          (snd (fold (\<lambda>v. flush_ids b 1 (vector_at templates v)) vs X1)) \<and>
        frame b DB (snd X1) (snd (fold (\<lambda>v. flush_ids b 1 (vector_at templates v)) vs X1))"
    using s1 Cons.prems by (intro Cons.IH) auto
  then show ?case using s1 frame_trans by (simp add: X1_def) metis
qed

subsection \<open>The sweep\<close>

definition zero_at :: "int \<Rightarrow> int list \<Rightarrow> int list" where
  "zero_at x Sc = Sc[nat x := 0]"

lemma sweep_while_Suc:
  "sweep_while thr b (Suc n) vi li (Sc, bs) =
     (let t = int_at bs (int (b + vi)) in
      if int_at Sc t < thr t
      then sweep_while thr b n (vi + 1) li (zero_at t Sc, bs[b := int_at bs (int b) - 1])
      else sweep_while thr b n (vi + 1) (li + 1) (zero_at t Sc, bs[b + li + 1 := t]))"
  by (simp add: Let_def zero_at_def)

lemma sweep_while_spec:
  "length R = n \<Longrightarrow> distinct R \<Longrightarrow> (\<forall>x\<in>set R. 0 \<le> x \<and> nat x < length Sc) \<Longrightarrow>
   (\<forall>i<n. bs ! (b + vi + i) = R ! i) \<Longrightarrow> li < vi \<Longrightarrow> b + vi + n \<le> length bs \<Longrightarrow>
   \<exists>bs'. sweep_while thr b n vi li (Sc, bs) = (fold zero_at R Sc, bs') \<and>
      length bs' = length bs \<and>
      bs' ! b = bs ! b - int (length (filter (\<lambda>x. Sc ! nat x < thr x) R)) \<and>
      (\<forall>m < length (filter (\<lambda>x. \<not> Sc ! nat x < thr x) R).
          bs' ! (b + li + 1 + m) = filter (\<lambda>x. \<not> Sc ! nat x < thr x) R ! m) \<and>
      (\<forall>i. i \<noteq> b \<and> (i \<le> b + li \<or> b + vi + n \<le> i) \<longrightarrow> bs' ! i = bs ! i)"
proof (induction n arbitrary: R vi li Sc bs)
  case 0
  then show ?case by simp
next
  case (Suc n)
  then obtain x R' where R: "R = x # R'" by (cases R) auto
  from Suc.prems R have lenR': "length R' = n" and dR': "distinct R'" and xR': "x \<notin> set R'"
    and x: "0 \<le> x" "nat x < length Sc"
    and rngR': "\<forall>y\<in>set R'. 0 \<le> y \<and> nat y < length Sc"
    by auto
  have inb: "b + vi < length bs" "b < length bs" using Suc.prems by auto
  have "int_at bs (int (b + vi)) = bs ! (b + vi)" by (rule int_at_nth) (rule inb)
  moreover have "bs ! (b + vi + 0) = R ! 0" using Suc.prems(4) by blast
  ultimately have t: "int_at bs (int (b + vi)) = x" by (simp add: R)
  have "x < int (length Sc)" using x by linarith
  then have sx: "int_at Sc x = Sc ! nat x" using x by (simp add: int_at_def)
  have ib: "int_at bs (int b) = bs ! b" by (rule int_at_nth) (rule inb)
  have same: "\<And>y. y \<in> set R' \<Longrightarrow> zero_at x Sc ! nat y = Sc ! nat y"
  proof -
    fix y assume y: "y \<in> set R'"
    then have "y \<noteq> x" using xR' by auto
    moreover have "0 \<le> y" using rngR' y by simp
    ultimately have "nat x \<noteq> nat y" using x by simp
    then show "zero_at x Sc ! nat y = Sc ! nat y" by (simp add: zero_at_def)
  qed
  have fdrop: "filter (\<lambda>y. zero_at x Sc ! nat y < thr y) R' = filter (\<lambda>y. Sc ! nat y < thr y) R'"
    by (rule filter_cong) (simp_all add: same)
  have fkeep: "filter (\<lambda>y. \<not> zero_at x Sc ! nat y < thr y) R' = filter (\<lambda>y. \<not> Sc ! nat y < thr y) R'"
    by (rule filter_cong) (simp_all add: same)
  have rng1: "\<forall>y\<in>set R'. 0 \<le> y \<and> nat y < length (zero_at x Sc)"
    using rngR' by (simp add: zero_at_def)
  show ?case
  proof (cases "Sc ! nat x < thr x")
    case True
    define bs1 where "bs1 = bs[b := bs ! b - 1]"
    have step: "sweep_while thr b (Suc n) vi li (Sc, bs) =
                sweep_while thr b n (vi + 1) li (zero_at x Sc, bs1)"
      unfolding sweep_while_Suc t Let_def sx ib bs1_def using True by simp
    have un: "\<forall>i<n. bs1 ! (b + (vi + 1) + i) = R' ! i"
    proof (intro allI impI)
      fix i assume "i < n"
      then have "Suc i < Suc n" by simp
      with Suc.prems(4) have "bs ! (b + vi + Suc i) = R ! Suc i" by blast
      moreover have "b + (vi + 1) + i \<noteq> b" using Suc.prems(5) by simp
      ultimately show "bs1 ! (b + (vi + 1) + i) = R' ! i" by (simp add: bs1_def R)
    qed
    from Suc.IH[OF lenR' dR' rng1 un, of li] Suc.prems(5,6)
    obtain bs' where
      r: "sweep_while thr b n (vi + 1) li (zero_at x Sc, bs1) = (fold zero_at R' (zero_at x Sc), bs')"
      and l: "length bs' = length bs1"
      and cb: "bs' ! b = bs1 ! b - int (length (filter (\<lambda>y. zero_at x Sc ! nat y < thr y) R'))"
      and kp: "\<forall>m < length (filter (\<lambda>y. \<not> zero_at x Sc ! nat y < thr y) R').
                 bs' ! (b + li + 1 + m) = filter (\<lambda>y. \<not> zero_at x Sc ! nat y < thr y) R' ! m"
      and fr: "\<forall>i. i \<noteq> b \<and> (i \<le> b + li \<or> b + (vi + 1) + n \<le> i) \<longrightarrow> bs' ! i = bs1 ! i"
      by (auto simp: bs1_def)
    have "bs' ! b = bs ! b - int (length (filter (\<lambda>y. Sc ! nat y < thr y) R))"
      using cb True inb by (simp add: fdrop R bs1_def)
    moreover have "\<forall>m < length (filter (\<lambda>y. \<not> Sc ! nat y < thr y) R).
                 bs' ! (b + li + 1 + m) = filter (\<lambda>y. \<not> Sc ! nat y < thr y) R ! m"
      using kp True by (simp add: fkeep R)
    moreover have "\<forall>i. i \<noteq> b \<and> (i \<le> b + li \<or> b + vi + Suc n \<le> i) \<longrightarrow> bs' ! i = bs ! i"
      using fr by (auto simp: bs1_def)
    ultimately show ?thesis
      using step r l by (auto simp: R bs1_def)
  next
    case False
    define bs1 where "bs1 = bs[b + li + 1 := x]"
    have step: "sweep_while thr b (Suc n) vi li (Sc, bs) =
                sweep_while thr b n (vi + 1) (li + 1) (zero_at x Sc, bs1)"
      unfolding sweep_while_Suc t Let_def sx ib bs1_def using False by simp
    have un: "\<forall>i<n. bs1 ! (b + (vi + 1) + i) = R' ! i"
    proof (intro allI impI)
      fix i assume "i < n"
      then have "Suc i < Suc n" by simp
      with Suc.prems(4) have "bs ! (b + vi + Suc i) = R ! Suc i" by blast
      moreover have "b + (vi + 1) + i \<noteq> b + li + 1" using Suc.prems(5) by simp
      ultimately show "bs1 ! (b + (vi + 1) + i) = R' ! i" by (simp add: bs1_def R)
    qed
    from Suc.IH[OF lenR' dR' rng1 un, of "li + 1"] Suc.prems(5,6)
    obtain bs' where
      r: "sweep_while thr b n (vi + 1) (li + 1) (zero_at x Sc, bs1) = (fold zero_at R' (zero_at x Sc), bs')"
      and l: "length bs' = length bs1"
      and cb: "bs' ! b = bs1 ! b - int (length (filter (\<lambda>y. zero_at x Sc ! nat y < thr y) R'))"
      and kp: "\<forall>m < length (filter (\<lambda>y. \<not> zero_at x Sc ! nat y < thr y) R').
                 bs' ! (b + (li + 1) + 1 + m) = filter (\<lambda>y. \<not> zero_at x Sc ! nat y < thr y) R' ! m"
      and fr: "\<forall>i. i \<noteq> b \<and> (i \<le> b + (li + 1) \<or> b + (vi + 1) + n \<le> i) \<longrightarrow> bs' ! i = bs1 ! i"
      by (auto simp: bs1_def)
    have li_in: "b + li + 1 < length bs" using Suc.prems(5,6) by simp
    have "bs' ! b = bs ! b - int (length (filter (\<lambda>y. Sc ! nat y < thr y) R))"
      using cb False by (simp add: fdrop R bs1_def)
    moreover have "\<forall>m < length (filter (\<lambda>y. \<not> Sc ! nat y < thr y) R).
                 bs' ! (b + li + 1 + m) = filter (\<lambda>y. \<not> Sc ! nat y < thr y) R ! m"
    proof (intro allI impI)
      fix m assume m: "m < length (filter (\<lambda>y. \<not> Sc ! nat y < thr y) R)"
      show "bs' ! (b + li + 1 + m) = filter (\<lambda>y. \<not> Sc ! nat y < thr y) R ! m"
      proof (cases m)
        case 0
        have "b + li + 1 \<noteq> b \<and> (b + li + 1 \<le> b + (li + 1) \<or> b + (vi + 1) + n \<le> b + li + 1)"
          by simp
        with fr have "bs' ! (b + li + 1) = bs1 ! (b + li + 1)" by blast
        then show ?thesis using 0 False li_in by (simp add: R bs1_def)
      next
        case (Suc m')
        then have "m' < length (filter (\<lambda>y. \<not> zero_at x Sc ! nat y < thr y) R')"
          using m False by (simp add: R fkeep)
        with kp have "bs' ! (b + (li + 1) + 1 + m') = filter (\<lambda>y. \<not> zero_at x Sc ! nat y < thr y) R' ! m'"
          by blast
        then show ?thesis using Suc False by (simp add: R fkeep)
      qed
    qed
    moreover have "\<forall>i. i \<noteq> b \<and> (i \<le> b + li \<or> b + vi + Suc n \<le> i) \<longrightarrow> bs' ! i = bs ! i"
    proof (intro allI impI)
      fix i assume i: "i \<noteq> b \<and> (i \<le> b + li \<or> b + vi + Suc n \<le> i)"
      then have "i \<noteq> b \<and> (i \<le> b + (li + 1) \<or> b + (vi + 1) + n \<le> i)" by auto
      with fr have "bs' ! i = bs1 ! i" by blast
      moreover have "i \<noteq> b + li + 1" using i Suc.prems(5) by auto
      ultimately show "bs' ! i = bs ! i" by (simp add: bs1_def)
    qed
    ultimately show ?thesis
      using step r l by (auto simp: R bs1_def)
  qed
qed

lemma length_fold_zero_at [simp]: "length (fold zero_at R Sc) = length Sc"
  by (induction R arbitrary: Sc) (simp_all add: zero_at_def)

lemma nth_fold_zero_at:
  "t < length Sc \<Longrightarrow> (\<forall>x\<in>set R. 0 \<le> x) \<Longrightarrow>
   fold zero_at R Sc ! t = (if int t \<in> set R then 0 else Sc ! t)"
proof (induction R arbitrary: Sc)
  case Nil
  then show ?case by simp
next
  case (Cons x R)
  have "fold zero_at R (zero_at x Sc) ! t = (if int t \<in> set R then 0 else zero_at x Sc ! t)"
    using Cons.prems by (intro Cons.IH) (simp_all add: zero_at_def)
  moreover have "zero_at x Sc ! t = (if int t = x then 0 else Sc ! t)"
    using Cons.prems by (auto simp: zero_at_def nth_list_update)
  ultimately show ?case by auto
qed

lemma sweep_bucket:
  assumes ok: "bucket_ok b DB Sc bs"
  shows "\<exists>bs'. sweep thr b (Sc, bs) = (replicate DB 0, bs') \<and> frame b DB bs bs' \<and>
           0 \<le> bs' ! b \<and>
           listed bs' b = filter (\<lambda>x. \<not> Sc ! nat x < thr x) (listed bs b)"
proof -
  define R where "R = listed bs b"
  define n where "n = nat (bs ! b)"
  from ok have len: "length Sc = DB" "b + DB < length bs" and c: "0 \<le> bs ! b"
    and d: "distinct R" and rng: "\<forall>x\<in>set R. 0 < x \<and> x < int DB"
    and iff: "\<forall>u<DB. (Sc ! u \<noteq> 0) = (int u \<in> set R)"
    by (simp_all add: bucket_ok_def R_def)
  have nle: "n \<le> DB - 1" unfolding n_def by (rule bucket_count_le[OF ok])
  have ib: "int_at bs (int b) = bs ! b" using len by (intro int_at_nth) simp
  have lenR: "length R = n" by (simp add: R_def n_def ib)
  have Rnth: "R = map (\<lambda>i. bs ! (b + i)) [1..<Suc n]"
    unfolding R_def n_def using nle len by (intro listed_nth) (simp add: n_def)
  have sw: "sweep thr b (Sc, bs) = sweep_while thr b n 1 0 (Sc, bs)"
    by (simp add: sweep_def ib n_def)
  have zeros: "fold zero_at R Sc = replicate DB 0"
  proof (rule nth_equalityI)
    show "length (fold zero_at R Sc) = length (replicate DB 0)" by (simp add: len)
  next
    fix t assume "t < length (fold zero_at R Sc)"
    then have t: "t < DB" by (simp add: len)
    have "fold zero_at R Sc ! t = (if int t \<in> set R then 0 else Sc ! t)"
      using t len rng by (intro nth_fold_zero_at) auto
    then show "fold zero_at R Sc ! t = replicate DB 0 ! t"
      using iff t by auto
  qed
  show ?thesis
  proof (cases "n = 0")
    case True
    then have R0: "R = []" using lenR by simp
    have "sweep thr b (Sc, bs) = (replicate DB 0, bs)"
      unfolding sw True using zeros R0 by simp
    moreover have "listed bs b = filter (\<lambda>x. \<not> Sc ! nat x < thr x) (listed bs b)"
      using R0 by (simp add: R_def)
    ultimately show ?thesis using c by (intro exI[of _ bs]) simp
  next
    case False
    have pre1: "\<forall>x\<in>set R. 0 \<le> x \<and> nat x < length Sc" using rng len by auto
    have pre2: "\<forall>i<n. bs ! (b + 1 + i) = R ! i"
    proof (intro allI impI)
      fix i assume "i < n"
      then have "map (\<lambda>i. bs ! (b + i)) [1..<Suc n] ! i = bs ! (b + ([1..<Suc n] ! i))"
        by (intro nth_map) simp
      also have "[1..<Suc n] ! i = 1 + i" using \<open>i < n\<close> by (intro nth_upt) simp
      finally have "R ! i = bs ! (b + (1 + i))" unfolding Rnth[symmetric] .
      then show "bs ! (b + 1 + i) = R ! i" by (simp add: add.assoc)
    qed
    have pre3: "b + 1 + n \<le> length bs" using nle len False by simp
    from sweep_while_spec[OF lenR d pre1 pre2 _ pre3, of 0 thr]
    obtain bs' where
      r: "sweep_while thr b n 1 0 (Sc, bs) = (fold zero_at R Sc, bs')"
      and l: "length bs' = length bs"
      and cb: "bs' ! b = bs ! b - int (length (filter (\<lambda>x. Sc ! nat x < thr x) R))"
      and kp: "\<forall>m < length (filter (\<lambda>x. \<not> Sc ! nat x < thr x) R).
                 bs' ! (b + 0 + 1 + m) = filter (\<lambda>x. \<not> Sc ! nat x < thr x) R ! m"
      and fr: "\<forall>i. i \<noteq> b \<and> (i \<le> b + 0 \<or> b + 1 + n \<le> i) \<longrightarrow> bs' ! i = bs ! i"
      by auto
    define K where "K = filter (\<lambda>x. \<not> Sc ! nat x < thr x) R"
    have "length R = length (filter (\<lambda>x. Sc ! nat x < thr x) R) + length K"
      unfolding K_def by (rule sum_length_filter_compl[symmetric])
    then have cnt: "bs' ! b = int (length K)"
      using cb c lenR by (simp add: n_def)
    have Kle: "length K \<le> n" unfolding K_def using lenR length_filter_le[of _ R] by simp
    have "listed bs' b = map (\<lambda>i. bs' ! (b + i)) [1..<Suc (nat (bs' ! b))]"
      using Kle nle len l cnt by (intro listed_nth) simp
    also have "\<dots> = K"
    proof (rule nth_equalityI)
      show "length (map (\<lambda>i. bs' ! (b + i)) [1..<Suc (nat (bs' ! b))]) = length K"
        by (simp add: cnt del: upt_Suc)
    next
      fix m assume "m < length (map (\<lambda>i. bs' ! (b + i)) [1..<Suc (nat (bs' ! b))])"
      then have m: "m < length K" by (simp add: cnt del: upt_Suc)
      then have "bs' ! (b + 0 + 1 + m) = K ! m" using kp unfolding K_def by blast
      moreover have "map (\<lambda>i. bs' ! (b + i)) [1..<Suc (nat (bs' ! b))] ! m =
                     bs' ! (b + ([1..<Suc (nat (bs' ! b))] ! m))"
        using m by (intro nth_map) (simp add: cnt)
      moreover have "[1..<Suc (nat (bs' ! b))] ! m = 1 + m"
        using m by (intro nth_upt) (simp add: cnt)
      ultimately show "map (\<lambda>i. bs' ! (b + i)) [1..<Suc (nat (bs' ! b))] ! m = K ! m"
        by (simp add: add.assoc)
    qed
    finally have lst: "listed bs' b = K" .
    have "frame b DB bs bs'"
      unfolding frame_def
    proof (intro conjI allI impI)
      fix i assume "i < b \<or> b + DB \<le> i"
      then have "i \<noteq> b \<and> (i \<le> b + 0 \<or> b + 1 + n \<le> i)" using nle False by auto
      with fr show "bs' ! i = bs ! i" by blast
    qed (rule l)
    with r lst cnt zeros show ?thesis
      by (auto simp: sw K_def R_def)
  qed
qed

subsection \<open>The merge\<close>

lemma merge_step_listed:
  assumes c: "0 \<le> bs ! 0" and len: "nat (bs ! 0) + 1 < length bs"
  shows "listed (bs[0 := bs ! 0 + 1, nat (bs ! 0 + 1) := x]) 0 = listed bs 0 @ [x]"
proof -
  define cnt where "cnt = nat (bs ! 0)"
  have bsb: "bs ! 0 = int cnt" using c by (simp add: cnt_def)
  let ?bs' = "bs[0 := bs ! 0 + 1, nat (bs ! 0 + 1) := x]"
  have p: "?bs' = (bs[0 := int cnt + 1])[cnt + 1 := x]"
    by (simp add: bsb nat_add_distrib)
  have l: "length ?bs' = length bs" by simp
  have "0 < length bs" using len by linarith
  then have pb: "?bs' ! 0 = int cnt + 1" by (simp add: p)
  have "listed ?bs' 0 = map (\<lambda>i. ?bs' ! (0 + i)) [1..<Suc (cnt + 1)]"
    using len by (subst listed_nth) (simp_all add: pb cnt_def[symmetric] nat_add_distrib)
  also have "\<dots> = map (\<lambda>i. bs ! (0 + i)) [1..<Suc cnt] @ [x]"
    using len by (auto simp: p cnt_def[symmetric] nth_list_update)
  also have "map (\<lambda>i. bs ! (0 + i)) [1..<Suc cnt] = listed bs 0"
    using len by (subst listed_nth) (simp_all add: cnt_def)
  finally show ?thesis .
qed

lemma merge_while_spec:
  "length R = n \<Longrightarrow> 0 \<le> bs ! 0 \<Longrightarrow> 0 < DB \<Longrightarrow> nat (bs ! 0) + 1 \<le> DB + ri \<Longrightarrow>
   DB + ri + n < length bs \<Longrightarrow> (\<forall>i<n. bs ! (DB + ri + 1 + i) = R ! i) \<Longrightarrow>
   listed (merge_while DB n ri bs) 0 = listed bs 0 @ map uminus R"
proof (induction n arbitrary: R ri bs)
  case 0
  then show ?case by simp
next
  case (Suc n)
  then obtain x R' where R: "R = x # R'" by (cases R) auto
  define bs2 where "bs2 = bs[0 := bs ! 0 + 1, nat (bs ! 0 + 1) := - x]"
  have in0: "0 < length bs" using Suc.prems(5) by linarith
  have i0: "int_at bs 0 = bs ! 0" using in0 by (simp add: int_at_def)
  have rd: "DB + ri + 1 < length bs" using Suc.prems by simp
  have "bs ! (DB + ri + 1 + 0) = R ! 0" using Suc.prems(6) by blast
  then have x: "bs ! (DB + ri + 1) = x" by (simp add: R)
  have "int_at (bs[0 := bs ! 0 + 1]) (int (DB + ri + 1)) = (bs[0 := bs ! 0 + 1]) ! (DB + ri + 1)"
    using rd by (intro int_at_nth) simp
  then have rx: "int_at (bs[0 := bs ! 0 + 1]) (int (DB + ri + 1)) = x"
    using x by simp
  have step: "merge_while DB (Suc n) ri bs = merge_while DB n (ri + 1) bs2"
    unfolding merge_while.simps Let_def i0 rx bs2_def ..
  have l2: "listed bs2 0 = listed bs 0 @ [- x]"
    unfolding bs2_def using Suc.prems by (intro merge_step_listed) auto
  have b20: "bs2 ! 0 = bs ! 0 + 1"
    using Suc.prems in0 by (simp add: bs2_def nat_add_distrib)
  have un: "\<forall>i<n. bs2 ! (DB + (ri + 1) + 1 + i) = R' ! i"
  proof (intro allI impI)
    fix i assume "i < n"
    then have "Suc i < Suc n" by simp
    with Suc.prems(6) have "bs ! (DB + ri + 1 + Suc i) = R ! Suc i" by blast
    moreover have "DB + (ri + 1) + 1 + i \<noteq> nat (bs ! 0 + 1)" "DB + (ri + 1) + 1 + i \<noteq> 0"
      using Suc.prems(2,4) by (simp_all add: nat_add_distrib)
    ultimately show "bs2 ! (DB + (ri + 1) + 1 + i) = R' ! i"
      by (simp add: bs2_def R)
  qed
  have "listed (merge_while DB n (ri + 1) bs2) 0 = listed bs2 0 @ map uminus R'"
    using Suc.prems R un b20 by (intro Suc.IH) (auto simp: bs2_def nat_add_distrib)
  then show ?case unfolding step by (simp add: l2 R)
qed

lemma merge_matches_listed:
  assumes "0 < DB" "0 \<le> bs ! 0" "nat (bs ! 0) < DB" "0 \<le> bs ! DB" "nat (bs ! DB) < DB"
    "DB + DB < length bs"
  shows "listed (merge_matches DB bs) 0 = listed bs 0 @ map uminus (listed bs DB)"
proof -
  define n where "n = nat (bs ! DB)"
  have ib: "int_at bs (int DB) = bs ! DB" using assms by (intro int_at_nth) simp
  have R: "listed bs DB = map (\<lambda>i. bs ! (DB + i)) [1..<Suc n]"
    unfolding n_def using assms by (intro listed_nth) simp
  have un: "\<forall>i<n. bs ! (DB + 0 + 1 + i) = listed bs DB ! i"
  proof (intro allI impI)
    fix i assume i: "i < n"
    then have "map (\<lambda>i. bs ! (DB + i)) [1..<Suc n] ! i = bs ! (DB + ([1..<Suc n] ! i))"
      by (intro nth_map) simp
    also have "[1..<Suc n] ! i = 1 + i" using i by (intro nth_upt) simp
    finally have "listed bs DB ! i = bs ! (DB + (1 + i))" unfolding R[symmetric] .
    then show "bs ! (DB + 0 + 1 + i) = listed bs DB ! i" by (simp add: add.assoc)
  qed
  have "listed (merge_while DB n 0 bs) 0 = listed bs 0 @ map uminus (listed bs DB)"
    using assms un by (intro merge_while_spec) (simp_all add: ib n_def)
  then show ?thesis by (simp add: merge_matches_def ib n_def)
qed

subsection \<open>The scanner on a well-formed input\<close>

text \<open>
  The input of a call: at least one template slot, ids inside the score array, the score
  array all zero, and a buffer with room for both lists.
\<close>

definition kmers_wf :: "HashMapKMA \<Rightarrow> int list \<Rightarrow> int list \<Rightarrow> bool" where
  "kmers_wf templates bestTemplates Score \<longleftrightarrow>
     0 < DB_size templates \<and> vectors_ok templates (DB_size templates) \<and>
     Score = replicate (DB_size templates) 0 \<and> 2 * DB_size templates < length bestTemplates"

lemma kmers_pass_bucket:
  assumes "bucket_ok b DB (fst X) (snd X)" "vectors_ok templates DB"
  shows "bucket_ok b DB (fst (snd (kmers_pass kmers_hit_individual templates b qseq seqend ks X)))
           (snd (snd (kmers_pass kmers_hit_individual templates b qseq seqend ks X))) \<and>
         frame b DB (snd X) (snd (snd (kmers_pass kmers_hit_individual templates b qseq seqend ks X)))"
proof -
  obtain vs ks1 where sub: "set vs \<subseteq> hit_vectors templates" and
    p: "\<And>H X. kmers_pass H templates b qseq seqend ks X = (ks1, finish H templates b vs X)"
    using kmers_pass_fold[of templates b qseq seqend ks] by blast
  show ?thesis
    unfolding p finish_individual using fold_flush_bucket[OF assms sub] by simp
qed

lemma prefix_pass_bucket:
  assumes "bucket_ok b DB (fst X) (snd X)" "vectors_ok templates DB"
  shows "bucket_ok b DB (fst (snd (prefix_pass kmers_hit_individual templates b qseq ks X)))
           (snd (snd (prefix_pass kmers_hit_individual templates b qseq ks X))) \<and>
         frame b DB (snd X) (snd (snd (prefix_pass kmers_hit_individual templates b qseq ks X)))"
proof -
  obtain vs ks1 where sub: "set vs \<subseteq> hit_vectors templates" and
    p: "\<And>H X. prefix_pass H templates b qseq ks X = (ks1, finish H templates b vs X)"
    using prefix_pass_fold[of templates b qseq ks] by blast
  show ?thesis
    unfolding p finish_individual using fold_flush_bucket[OF assms sub] by simp
qed

lemma nonneg_replicate [simp]: "nonneg (replicate n 0)"
  by (simp add: nonneg_def)

lemma listed_empty: "b < length bs \<Longrightarrow> bs ! b = 0 \<Longrightarrow> listed bs b = []"
  by (simp add: listed_def int_at_nth)

lemma bucket_ok_empty:
  "b + DB < length bs \<Longrightarrow> bs ! b = 0 \<Longrightarrow> bucket_ok b DB (replicate DB 0) bs"
  by (simp add: bucket_ok_def listed_empty)

lemma kmers_init_props:
  assumes "2 * DB_size templates < length bestTemplates"
  shows "length (kmers_init templates bestTemplates) = length bestTemplates"
    and "kmers_init templates bestTemplates ! 0 = 0"
    and "kmers_init templates bestTemplates ! DB_size templates = 0"
proof -
  have "0 < length bestTemplates" "DB_size templates < length bestTemplates"
    using assms by linarith+
  then show "length (kmers_init templates bestTemplates) = length bestTemplates"
    and "kmers_init templates bestTemplates ! 0 = 0"
    and "kmers_init templates bestTemplates ! DB_size templates = 0"
    by (auto simp: kmers_init_def nth_list_update)
qed

lemma frame_nth: "frame b DB bs bs' \<Longrightarrow> i < b \<or> b + DB \<le> i \<Longrightarrow> bs' ! i = bs ! i"
  unfolding frame_def by blast

lemma frame_length: "frame b DB bs bs' \<Longrightarrow> length bs' = length bs"
  by (simp add: frame_def)

lemma listed_frame_below:
  assumes fr: "frame DB DB bs bs'" and c: "nat (bs ! 0) < DB" and len: "DB < length bs"
  shows "listed bs' 0 = listed bs 0"
proof -
  have l: "length bs' = length bs" using fr by (rule frame_length)
  have z: "bs' ! 0 = bs ! 0" using fr c by (intro frame_nth) auto
  have "listed bs' 0 = map (\<lambda>i. bs' ! (0 + i)) [1..<Suc (nat (bs' ! 0))]"
    using c len l z by (intro listed_nth) simp
  also have "\<dots> = map (\<lambda>i. bs ! (0 + i)) [1..<Suc (nat (bs ! 0))]"
    unfolding z
  proof (rule map_cong[OF refl])
    fix i assume "i \<in> set [1..<Suc (nat (bs ! 0))]"
    then have "i < DB" using c by auto
    then show "bs' ! (0 + i) = bs ! (0 + i)" using frame_nth[OF fr, of i] by simp
  qed
  also have "\<dots> = listed bs 0"
    using c len by (intro listed_nth[symmetric]) simp
  finally show ?thesis .
qed

lemma bucket_members:
  assumes ok: "bucket_ok b DB Sc bs" and t: "t < DB"
  shows "(int t \<in> set (listed bs b)) = (0 < Sc ! t)"
proof -
  from ok have iff: "(Sc ! t \<noteq> 0) = (int t \<in> set (listed bs b))" and nn: "nonneg Sc"
    and len: "length Sc = DB"
    using t by (simp_all add: bucket_ok_def)
  have "0 \<le> Sc ! t" using nn len t by (simp add: nonneg_def)
  with iff show ?thesis by auto
qed

lemma bucket_positive:
  "bucket_ok b DB Sc bs \<Longrightarrow> x \<in> set (listed bs b) \<Longrightarrow> 0 < x \<and> x < int DB"
  by (simp add: bucket_ok_def)

lemma swept_members:
  assumes ok: "bucket_ok b DB Sc bs" and t: "t < DB"
    and l: "listed bs' b = filter (\<lambda>x. \<not> Sc ! nat x < thr x) (listed bs b)"
  shows "(int t \<in> set (listed bs' b)) = (0 < Sc ! t \<and> thr (int t) \<le> Sc ! t)"
  unfolding l using bucket_members[OF ok t] by auto

lemma swept_count:
  assumes ok: "bucket_ok b DB Sc bs" and DB: "0 < DB"
    and l: "listed bs' b = filter P (listed bs b)" and len: "length bs' = length bs"
    and c: "0 \<le> bs' ! b"
  shows "nat (bs' ! b) < DB"
proof -
  from ok have inb: "b + DB < length bs" by (simp add: bucket_ok_def)
  have "length (filter P (listed bs b)) \<le> length (listed bs b)" by (rule length_filter_le)
  then have "length (listed bs' b) \<le> length (listed bs b)" unfolding l .
  then have "nat (int_at bs' (int b)) \<le> nat (int_at bs (int b))" by simp
  moreover have "int_at bs' (int b) = bs' ! b" using inb len by (intro int_at_nth) simp
  moreover have "int_at bs (int b) = bs ! b" using inb by (intro int_at_nth) simp
  ultimately have "nat (bs' ! b) \<le> nat (bs ! b)" by simp
  with bucket_count_le[OF ok] DB show ?thesis by simp
qed

lemma prefix_outcome:
  fixes templates :: HashMapKMA and bestTemplates Score template_lengths :: "int list"
    and qseq_fw qseq_rc :: CompDNA
  defines "X2 \<equiv> prefix_scan kmers_hit_individual templates bestTemplates Score qseq_fw qseq_rc"
  assumes wf: "kmers_wf templates bestTemplates Score" and pm: "prefix_len templates \<noteq> 0"
  shows "\<exists>bs'. reassign_kmers_individual templates bestTemplates Score template_lengths qseq_fw qseq_rc =
                 (int_at bs' 0, bs', replicate (DB_size templates) 0) \<and>
           bucket_ok 0 (DB_size templates) (fst X2) (snd X2) \<and>
           listed bs' 0 =
             filter (\<lambda>x. \<not> fst X2 ! nat x < threshold templates template_lengths x) (listed (snd X2) 0)"
proof -
  define DB where "DB = DB_size templates"
  from wf have DB0: "0 < DB" and vok: "vectors_ok templates DB" and Sc0: "Score = replicate DB 0"
    and len: "2 * DB < length bestTemplates"
    by (simp_all add: kmers_wf_def DB_def)
  define bs0 where "bs0 = kmers_init templates bestTemplates"
  have init: "length bs0 = length bestTemplates" "bs0 ! 0 = 0"
    using kmers_init_props[of templates bestTemplates] len by (simp_all add: bs0_def DB_def)
  have ok0: "bucket_ok 0 DB (fst (Score, bs0)) (snd (Score, bs0))"
    using init len by (simp add: Sc0 bucket_ok_empty)
  define P1 where "P1 = prefix_pass kmers_hit_individual templates 0 qseq_fw (kmer_state0 templates) (Score, bs0)"
  have ok1: "bucket_ok 0 DB (fst (snd P1)) (snd (snd P1))"
    unfolding P1_def using prefix_pass_bucket[OF ok0 vok] by blast
  have X2: "X2 = snd (prefix_pass kmers_hit_individual templates 0 qseq_rc (fst P1) (snd P1))"
    by (simp add: X2_def prefix_scan_def P1_def bs0_def Let_def)
  have ok2: "bucket_ok 0 DB (fst X2) (snd X2)"
    unfolding X2 using prefix_pass_bucket[OF ok1 vok] by blast
  from sweep_bucket[OF ok2, of "threshold templates template_lengths"]
  obtain bs' where
    sw: "sweep (threshold templates template_lengths) 0 (fst X2, snd X2) = (replicate DB 0, bs')"
    and l: "listed bs' 0 =
             filter (\<lambda>x. \<not> fst X2 ! nat x < threshold templates template_lengths x) (listed (snd X2) 0)"
    by blast
  have "reassign_kmers_individual templates bestTemplates Score template_lengths qseq_fw qseq_rc =
          (int_at bs' 0, bs', replicate DB 0)"
    using pm sw by (simp add: reassign_kmers_individual_def reassign_kmers_with_def X2_def)
  with ok2 l show ?thesis unfolding DB_def by blast
qed

lemma nonprefix_outcome:
  fixes templates :: HashMapKMA and bestTemplates Score template_lengths :: "int list"
    and qseq_fw qseq_rc :: CompDNA
  defines "X1 \<equiv> snd (fw_scan kmers_hit_individual templates bestTemplates Score qseq_fw)"
    and "X3 \<equiv> rc_scan kmers_hit_individual templates bestTemplates Score template_lengths qseq_fw qseq_rc"
    and "thr \<equiv> threshold templates template_lengths"
  assumes wf: "kmers_wf templates bestTemplates Score" and pm: "prefix_len templates = 0"
  shows "\<exists>bs'. reassign_kmers_individual templates bestTemplates Score template_lengths qseq_fw qseq_rc =
                 (int_at bs' 0, bs', replicate (DB_size templates) 0) \<and>
           bucket_ok 0 (DB_size templates) (fst X1) (snd X1) \<and>
           (prefix templates = 0 \<longrightarrow> bucket_ok (DB_size templates) (DB_size templates) (fst X3) (snd X3)) \<and>
           listed bs' 0 =
             filter (\<lambda>x. \<not> fst X1 ! nat x < thr x) (listed (snd X1) 0) @
             (if prefix templates = 0
              then map uminus (filter (\<lambda>x. \<not> fst X3 ! nat x < thr x) (listed (snd X3) (DB_size templates)))
              else [])"
proof -
  define DB where "DB = DB_size templates"
  from wf have DB0: "0 < DB" and vok: "vectors_ok templates DB" and Sc0: "Score = replicate DB 0"
    and len: "2 * DB < length bestTemplates"
    by (simp_all add: kmers_wf_def DB_def)
  define bs0 where "bs0 = kmers_init templates bestTemplates"
  have init: "length bs0 = length bestTemplates" "bs0 ! 0 = 0" "bs0 ! DB = 0"
    using kmers_init_props[of templates bestTemplates] len by (simp_all add: bs0_def DB_def)
  have ok0: "bucket_ok 0 DB (fst (Score, bs0)) (snd (Score, bs0))"
    using init len by (simp add: Sc0 bucket_ok_empty)
  define F where "F = fw_scan kmers_hit_individual templates bestTemplates Score qseq_fw"
  have F: "F = kmers_pass kmers_hit_individual templates 0 qseq_fw (seqend_of templates qseq_fw)
                 (kmer_state0 templates) (Score, bs0)"
    by (simp add: F_def fw_scan_def bs0_def)
  have X1: "X1 = snd F" by (simp add: X1_def F_def)
  have ok1: "bucket_ok 0 DB (fst X1) (snd X1)" and fr1: "frame 0 DB bs0 (snd X1)"
    unfolding X1 F using kmers_pass_bucket[OF ok0 vok] by simp_all
  from sweep_bucket[OF ok1, of thr]
  obtain bs2 where
    sw1: "sweep thr 0 (fst X1, snd X1) = (replicate DB 0, bs2)"
    and fr2: "frame 0 DB (snd X1) bs2" and c2: "0 \<le> bs2 ! 0"
    and l2: "listed bs2 0 = filter (\<lambda>x. \<not> fst X1 ! nat x < thr x) (listed (snd X1) 0)"
    by blast
  have len2: "length bs2 = length bestTemplates"
    using frame_length[OF fr2] frame_length[OF fr1] init by simp
  have bs2DB: "bs2 ! DB = 0"
    using frame_nth[OF fr2, of DB] frame_nth[OF fr1, of DB] init by simp
  have cnt2: "nat (bs2 ! 0) < DB"
    using swept_count[OF ok1 DB0 l2 frame_length[OF fr2] c2] .
  show ?thesis
  proof (cases "prefix templates = 0")
    case False
    have e: "listed bs2 DB = []" using bs2DB len2 len by (intro listed_empty) simp_all
    have "listed (merge_matches DB bs2) 0 = listed bs2 0 @ map uminus (listed bs2 DB)"
      using DB0 c2 cnt2 bs2DB len2 len by (intro merge_matches_listed) simp_all
    then have m: "listed (merge_matches DB bs2) 0 =
                  filter (\<lambda>x. \<not> fst X1 ! nat x < thr x) (listed (snd X1) 0)"
      by (simp add: e l2)
    have "reassign_kmers_individual templates bestTemplates Score template_lengths qseq_fw qseq_rc =
          (int_at (merge_matches DB bs2) 0, merge_matches DB bs2, replicate DB 0)"
      using pm False sw1
      by (simp add: reassign_kmers_individual_def reassign_kmers_with_def X1_def thr_def DB_def Let_def)
    with ok1 m False show ?thesis unfolding DB_def by auto
  next
    case True
    have okr: "bucket_ok DB DB (fst (replicate DB 0, bs2)) (snd (replicate DB 0, bs2))"
      using bs2DB len2 len by (simp add: bucket_ok_empty)
    have X3: "X3 = snd (kmers_pass kmers_hit_individual templates DB qseq_rc (seqend_of templates qseq_fw)
                          (fst F) (replicate DB 0, bs2))"
      using sw1 unfolding X3_def rc_scan_def F_def[symmetric] Let_def X1 thr_def DB_def by simp
    have ok3: "bucket_ok DB DB (fst X3) (snd X3)" and fr3: "frame DB DB bs2 (snd X3)"
      unfolding X3 using kmers_pass_bucket[OF okr vok] by simp_all
    from sweep_bucket[OF ok3, of thr]
    obtain bs4 where
      sw3: "sweep thr DB (fst X3, snd X3) = (replicate DB 0, bs4)"
      and fr4: "frame DB DB (snd X3) bs4" and c4: "0 \<le> bs4 ! DB"
      and l4: "listed bs4 DB = filter (\<lambda>x. \<not> fst X3 ! nat x < thr x) (listed (snd X3) DB)"
      by blast
    have len3: "length (snd X3) = length bestTemplates" using frame_length[OF fr3] len2 by simp
    have len4: "length bs4 = length bestTemplates" using frame_length[OF fr4] len3 by simp
    have z3: "snd X3 ! 0 = bs2 ! 0" using frame_nth[OF fr3, of 0] DB0 by simp
    have z4: "bs4 ! 0 = bs2 ! 0" using frame_nth[OF fr4, of 0] DB0 z3 by simp
    have "listed (snd X3) 0 = listed bs2 0"
      using len2 len by (intro listed_frame_below[OF fr3 cnt2]) simp
    moreover have "nat (snd X3 ! 0) < DB" using cnt2 z3 by simp
    then have "listed bs4 0 = listed (snd X3) 0"
      using len3 len by (intro listed_frame_below[OF fr4]) simp_all
    ultimately have l40: "listed bs4 0 = filter (\<lambda>x. \<not> fst X1 ! nat x < thr x) (listed (snd X1) 0)"
      using l2 by simp
    have cnt4: "nat (bs4 ! DB) < DB"
      using swept_count[OF ok3 DB0 l4 frame_length[OF fr4] c4] .
    have "listed (merge_matches DB bs4) 0 = listed bs4 0 @ map uminus (listed bs4 DB)"
      using DB0 c2 cnt2 z4 c4 cnt4 len4 len by (intro merge_matches_listed) simp_all
    then have m: "listed (merge_matches DB bs4) 0 =
                  filter (\<lambda>x. \<not> fst X1 ! nat x < thr x) (listed (snd X1) 0) @
                  map uminus (filter (\<lambda>x. \<not> fst X3 ! nat x < thr x) (listed (snd X3) DB))"
      by (simp add: l40 l4)
    have "reassign_kmers_individual templates bestTemplates Score template_lengths qseq_fw qseq_rc =
          (int_at (merge_matches DB bs4) 0, merge_matches DB bs4, replicate DB 0)"
      using pm True sw3
      by (simp add: reassign_kmers_individual_def reassign_kmers_with_def X3_def thr_def DB_def Let_def)
    with ok1 ok3 m True show ?thesis unfolding DB_def by auto
  qed
qed

subsection \<open>Concrete inputs\<close>

text \<open>
  An index with \<open>DB_size = 2\<close> and \<open>kmersize = 2\<close> in which the k-mer \<open>AA\<close> belongs to
  template 1, without and with a prefix (\<open>A\<close>); the query \<open>AAAAAAAA\<close> and its reverse
  complement \<open>TTTTTTTT\<close>.
\<close>

definition ex_templates :: HashMapKMA where
  "ex_templates =
     \<lparr>DB_size = 2, kmersize = 2, prefix = 0, prefix_len = 0, mlen = 0, flag = 0,
      hashMap_get = (\<lambda>c. if c = 0 then Some 1 else None),
      vector_at = (\<lambda>v. if v = 1 then [1] else []),
      initCmer = (\<lambda>k m. (k, m)), updateCmer = (\<lambda>c m k. (k, m)), getCmer = (\<lambda>k m. (k, m))\<rparr>"

definition ex_templates_prefix :: HashMapKMA where
  "ex_templates_prefix = ex_templates\<lparr>prefix_len := 1\<rparr>"

definition ex_qseq_fw :: CompDNA where
  "ex_qseq_fw = \<lparr>seqlen = 8, complen = 1, seq = [0, 0], N = [0, 0, 0]\<rparr>"

definition ex_qseq_rc :: CompDNA where
  "ex_qseq_rc = \<lparr>seqlen = 8, complen = 1, seq = [0xFFFF000000000000, 0], N = [0, 0, 0]\<rparr>"

definition ex_bests :: "int list" where "ex_bests = [0, 0, 0, 0, 0, 0]"
definition ex_Score :: "int list" where "ex_Score = [0, 0]"
definition ex_lengths :: "int list" where "ex_lengths = [0, 8, 0, 0]"
definition ex_lengths_prefix :: "int list" where "ex_lengths_prefix = [0, 5, 0, 7]"

subsection \<open>The claims on the scanner\<close>

lemma ex_wf: "kmers_wf ex_templates ex_bests ex_Score"
  by (simp add: kmers_wf_def vectors_ok_def ex_templates_def ex_bests_def ex_Score_def eval_nat_numeral)

lemma ex_wf_prefix: "kmers_wf ex_templates_prefix ex_bests ex_Score"
  by (simp add: kmers_wf_def vectors_ok_def ex_templates_prefix_def ex_templates_def ex_bests_def
        ex_Score_def eval_nat_numeral)

lemma kmers_wf_eq:
  assumes "kmers_wf templates bestTemplates Score"
  shows "vectors_ok templates (length Score)" "nonneg Score"
  using assms by (simp_all add: kmers_wf_def)

text \<open>
  C5 (compression equivalence).  With template ids inside the score array and no
  negative score at entry, the scanner with the run compression \<open>(last, reps)\<close> and
  the variant that flushes every hit with \<open>reps = 1\<close> return the same count, the same
  buffer and the same score array; the states before the sweeps, which hold the
  accumulated score of every template, are the same too.
\<close>

theorem C5_compression_equivalence:
  assumes "vectors_ok templates (length Score)" and "nonneg Score"
  shows "reassign_kmers templates bestTemplates Score template_lengths qseq_fw qseq_rc =
           reassign_kmers_individual templates bestTemplates Score template_lengths qseq_fw qseq_rc \<and>
         prefix_scan kmers_hit templates bestTemplates Score qseq_fw qseq_rc =
           prefix_scan kmers_hit_individual templates bestTemplates Score qseq_fw qseq_rc \<and>
         fw_scan kmers_hit templates bestTemplates Score qseq_fw =
           fw_scan kmers_hit_individual templates bestTemplates Score qseq_fw \<and>
         rc_scan kmers_hit templates bestTemplates Score template_lengths qseq_fw qseq_rc =
           rc_scan kmers_hit_individual templates bestTemplates Score template_lengths qseq_fw qseq_rc"
  using reassign_kmers_individual_eq[OF assms] prefix_scan_eq[OF assms] fw_scan_eq[OF assms]
    rc_scan_eq[OF assms]
  by blast

text \<open>C5 on the index without prefix: the individual scanner lists template 1 with score 7.\<close>

theorem C5_compression_equivalence_witness:
  "vectors_ok ex_templates (length ex_Score) \<and> nonneg ex_Score \<and>
   reassign_kmers_individual ex_templates ex_bests ex_Score ex_lengths ex_qseq_fw ex_qseq_rc =
     (1, [1, 1, 0, 0, 0, 0], [0, 0]) \<and>
   fw_scan kmers_hit_individual ex_templates ex_bests ex_Score ex_qseq_fw =
     (\<lparr>pmer = 0, kmer = 0, cmer = 0, mstate = (0, 0, 2)\<rparr>, [0, 7], [1, 1, 0, 0, 0, 0])"
proof -
  have h: "vectors_ok ex_templates (length ex_Score)" "nonneg ex_Score"
    using kmers_wf_eq[OF ex_wf] by simp_all
  have r: "reassign_kmers ex_templates ex_bests ex_Score ex_lengths ex_qseq_fw ex_qseq_rc =
             (1, [1, 1, 0, 0, 0, 0], [0, 0])"
    by code_simp
  have f: "fw_scan kmers_hit ex_templates ex_bests ex_Score ex_qseq_fw =
             (\<lparr>pmer = 0, kmer = 0, cmer = 0, mstate = (0, 0, 2)\<rparr>, [0, 7], [1, 1, 0, 0, 0, 0])"
    by code_simp
  from C5_compression_equivalence[OF h, of ex_bests ex_lengths ex_qseq_fw ex_qseq_rc] r f h
  show ?thesis by simp
qed

text \<open>
  C9 (score scratch invariant).  On a well-formed input, whose score array is all zero,
  the score array returned by \<open>reassign_kmers\<close> is all zero again; and in every pass
  the templates with a nonzero accumulated score are exactly the ids in the list that
  the sweep then goes through.
\<close>

theorem C9_score_scratch_zero:
  assumes "kmers_wf templates bestTemplates Score"
  shows "snd (snd (reassign_kmers templates bestTemplates Score template_lengths qseq_fw qseq_rc)) =
           replicate (DB_size templates) 0 \<and>
         (prefix_len templates \<noteq> 0 \<longrightarrow>
            (\<forall>t<DB_size templates.
               (0 < fst (prefix_scan kmers_hit templates bestTemplates Score qseq_fw qseq_rc) ! t) =
               (int t \<in> set (listed (snd (prefix_scan kmers_hit templates bestTemplates Score
                                             qseq_fw qseq_rc)) 0)))) \<and>
         (prefix_len templates = 0 \<longrightarrow>
            (\<forall>t<DB_size templates.
               (0 < fst (snd (fw_scan kmers_hit templates bestTemplates Score qseq_fw)) ! t) =
               (int t \<in> set (listed (snd (snd (fw_scan kmers_hit templates bestTemplates Score
                                                  qseq_fw))) 0))) \<and>
            (prefix templates = 0 \<longrightarrow>
               (\<forall>t<DB_size templates.
                  (0 < fst (rc_scan kmers_hit templates bestTemplates Score template_lengths
                             qseq_fw qseq_rc) ! t) =
                  (int t \<in> set (listed (snd (rc_scan kmers_hit templates bestTemplates Score
                                                template_lengths qseq_fw qseq_rc))
                                    (DB_size templates))))))"
proof -
  note e = kmers_wf_eq[OF assms]
  note eqs = reassign_kmers_individual_eq[OF e] prefix_scan_eq[OF e] fw_scan_eq[OF e] rc_scan_eq[OF e]
  show ?thesis
  proof (cases "prefix_len templates = 0")
    case True
    from nonprefix_outcome[OF assms True, of template_lengths qseq_fw qseq_rc]
    show ?thesis unfolding eqs using True by (auto simp: bucket_members)
  next
    case False
    from prefix_outcome[OF assms False, of template_lengths qseq_fw qseq_rc]
    show ?thesis unfolding eqs using False by (auto simp: bucket_members)
  qed
qed

text \<open>C9 on both concrete indexes.\<close>

theorem C9_score_scratch_zero_witness:
  "kmers_wf ex_templates ex_bests ex_Score \<and>
   snd (snd (reassign_kmers ex_templates ex_bests ex_Score ex_lengths ex_qseq_fw ex_qseq_rc)) = [0, 0] \<and>
   kmers_wf ex_templates_prefix ex_bests ex_Score \<and>
   snd (snd (reassign_kmers ex_templates_prefix ex_bests ex_Score ex_lengths_prefix
               ex_qseq_fw ex_qseq_rc)) = [0, 0]"
proof -
  have d: "DB_size ex_templates = 2" "DB_size ex_templates_prefix = 2"
    by (simp_all add: ex_templates_def ex_templates_prefix_def)
  from C9_score_scratch_zero[OF ex_wf, of ex_lengths ex_qseq_fw ex_qseq_rc]
    C9_score_scratch_zero[OF ex_wf_prefix, of ex_lengths_prefix ex_qseq_fw ex_qseq_rc]
    ex_wf ex_wf_prefix
  show ?thesis by (simp add: d eval_nat_numeral)
qed

text \<open>
  C3 (threshold rule), as the code has it.  For a template id \<open>0 < t < DB_size\<close> on a
  well-formed input: in prefix mode \<open>t\<close> is listed on return iff its score accumulated
  over both strands is positive and at least \<open>template_lengths[DB_size + t]\<close>; without
  prefix \<open>t\<close> is listed iff its forward score is positive and at least
  \<open>template_lengths[t] - kmersize + 1\<close>, and \<open>-t\<close> is listed iff \<open>prefix\<close> is zero and
  its reverse score is positive and at least that threshold.
\<close>

theorem C3_threshold_rule:
  assumes "kmers_wf templates bestTemplates Score" and "0 < t" and "t < DB_size templates"
  shows "(prefix_len templates \<noteq> 0 \<longrightarrow>
            (int t \<in> set (listed (fst (snd (reassign_kmers templates bestTemplates Score
                                               template_lengths qseq_fw qseq_rc))) 0)) =
            (0 < fst (prefix_scan kmers_hit templates bestTemplates Score qseq_fw qseq_rc) ! t \<and>
             int_at template_lengths (int (DB_size templates) + int t)
               \<le> fst (prefix_scan kmers_hit templates bestTemplates Score qseq_fw qseq_rc) ! t)) \<and>
         (prefix_len templates = 0 \<longrightarrow>
            (int t \<in> set (listed (fst (snd (reassign_kmers templates bestTemplates Score
                                               template_lengths qseq_fw qseq_rc))) 0)) =
            (0 < fst (snd (fw_scan kmers_hit templates bestTemplates Score qseq_fw)) ! t \<and>
             int_at template_lengths (int t) - kmersize templates + 1
               \<le> fst (snd (fw_scan kmers_hit templates bestTemplates Score qseq_fw)) ! t) \<and>
            (- int t \<in> set (listed (fst (snd (reassign_kmers templates bestTemplates Score
                                                 template_lengths qseq_fw qseq_rc))) 0)) =
            (prefix templates = 0 \<and>
             0 < fst (rc_scan kmers_hit templates bestTemplates Score template_lengths
                        qseq_fw qseq_rc) ! t \<and>
             int_at template_lengths (int t) - kmersize templates + 1
               \<le> fst (rc_scan kmers_hit templates bestTemplates Score template_lengths
                         qseq_fw qseq_rc) ! t))"
proof -
  note e = kmers_wf_eq[OF assms(1)]
  note eqs = reassign_kmers_individual_eq[OF e] prefix_scan_eq[OF e] fw_scan_eq[OF e] rc_scan_eq[OF e]
  define DB where "DB = DB_size templates"
  define thr where "thr = threshold templates template_lengths"
  show ?thesis
  proof (cases "prefix_len templates = 0")
    case False
    define X2 where "X2 = prefix_scan kmers_hit_individual templates bestTemplates Score qseq_fw qseq_rc"
    from prefix_outcome[OF assms(1) False, of template_lengths qseq_fw qseq_rc]
    obtain bs' where
      r: "reassign_kmers_individual templates bestTemplates Score template_lengths qseq_fw qseq_rc =
            (int_at bs' 0, bs', replicate DB 0)"
      and ok: "bucket_ok 0 DB (fst X2) (snd X2)"
      and l: "listed bs' 0 = filter (\<lambda>x. \<not> fst X2 ! nat x < thr x) (listed (snd X2) 0)"
      unfolding X2_def DB_def thr_def by blast
    have "(int t \<in> set (listed bs' 0)) = (0 < fst X2 ! t \<and> thr (int t) \<le> fst X2 ! t)"
      unfolding l using bucket_members[OF ok, of t] assms(3) by (auto simp: DB_def)
    moreover have "thr (int t) = int_at template_lengths (int (DB_size templates) + int t)"
      using False by (simp add: thr_def threshold_def)
    ultimately show ?thesis
      unfolding eqs r using False by (simp add: X2_def)
  next
    case True
    define X1 where "X1 = snd (fw_scan kmers_hit_individual templates bestTemplates Score qseq_fw)"
    define X3 where "X3 = rc_scan kmers_hit_individual templates bestTemplates Score template_lengths
                            qseq_fw qseq_rc"
    define K1 where "K1 = filter (\<lambda>x. \<not> fst X1 ! nat x < thr x) (listed (snd X1) 0)"
    define K3 where "K3 = filter (\<lambda>x. \<not> fst X3 ! nat x < thr x) (listed (snd X3) DB)"
    from nonprefix_outcome[OF assms(1) True, of template_lengths qseq_fw qseq_rc]
    obtain bs' where
      r: "reassign_kmers_individual templates bestTemplates Score template_lengths qseq_fw qseq_rc =
            (int_at bs' 0, bs', replicate DB 0)"
      and ok1: "bucket_ok 0 DB (fst X1) (snd X1)"
      and ok3: "prefix templates = 0 \<longrightarrow> bucket_ok DB DB (fst X3) (snd X3)"
      and l: "listed bs' 0 = K1 @ (if prefix templates = 0 then map uminus K3 else [])"
      unfolding X1_def X3_def DB_def thr_def K1_def K3_def by blast
    have tDB: "t < DB" using assms(3) by (simp add: DB_def)
    have thr: "thr (int t) = int_at template_lengths (int t) - kmersize templates + 1"
      using True by (simp add: thr_def threshold_def)
    have k1: "(int t \<in> set K1) = (0 < fst X1 ! t \<and> thr (int t) \<le> fst X1 ! t)"
      using bucket_members[OF ok1 tDB] by (auto simp: K1_def)
    have k1pos: "\<And>x. x \<in> set K1 \<Longrightarrow> 0 < x"
      using bucket_positive[OF ok1] by (auto simp: K1_def)
    have k3: "prefix templates = 0 \<Longrightarrow>
              (int t \<in> set K3) = (0 < fst X3 ! t \<and> thr (int t) \<le> fst X3 ! t)"
    proof -
      assume p: "prefix templates = 0"
      from ok3 p have ok: "bucket_ok DB DB (fst X3) (snd X3)" by blast
      have "(int t \<in> set (filter (\<lambda>x. \<not> fst X3 ! nat x < thr x) (listed (snd X3) DB))) =
            (0 < fst X3 ! t \<and> thr (int t) \<le> fst X3 ! t)"
        using bucket_members[OF ok tDB] by auto
      then show ?thesis by (simp add: K3_def)
    qed
    have k3pos: "prefix templates = 0 \<Longrightarrow> x \<in> set K3 \<Longrightarrow> 0 < x" for x
      using bucket_positive[of DB DB "fst X3" "snd X3" x] ok3 by (auto simp: K3_def)
    have fwd: "(int t \<in> set (listed bs' 0)) = (int t \<in> set K1)"
    proof (cases "prefix templates = 0")
      case True
      have "int t \<notin> set (map uminus K3)"
      proof
        assume "int t \<in> set (map uminus K3)"
        then obtain x where "x \<in> set K3" "int t = - x" by auto
        with k3pos[OF True] assms(2) show False by fastforce
      qed
      then show ?thesis using True by (simp add: l)
    next
      case False
      then show ?thesis by (simp add: l)
    qed
    have bwd: "(- int t \<in> set (listed bs' 0)) = (prefix templates = 0 \<and> int t \<in> set K3)"
    proof -
      have "- int t \<notin> set K1" using k1pos[of "- int t"] assms(2) by auto
      moreover have "(- int t \<in> set (map uminus K3)) = (int t \<in> set K3)" by force
      ultimately show ?thesis by (auto simp: l)
    qed
    show ?thesis
      unfolding eqs r using True fwd bwd k1 k3 thr
      by (auto simp: X1_def X3_def)
  qed
qed

text \<open>
  C3 on the concrete inputs: without prefix template 1 has forward score 7 against the
  threshold \<open>8 - 2 + 1\<close> and is listed, \<open>-1\<close> is not; with the prefix its score 6 is below
  \<open>template_lengths[2 + 1] = 7\<close> and it is not listed.
\<close>

theorem C3_threshold_rule_witness:
  "kmers_wf ex_templates ex_bests ex_Score \<and>
   1 \<in> set (listed (fst (snd (reassign_kmers ex_templates ex_bests ex_Score ex_lengths
                                 ex_qseq_fw ex_qseq_rc))) 0) \<and>
   - 1 \<notin> set (listed (fst (snd (reassign_kmers ex_templates ex_bests ex_Score ex_lengths
                                 ex_qseq_fw ex_qseq_rc))) 0) \<and>
   kmers_wf ex_templates_prefix ex_bests ex_Score \<and>
   1 \<notin> set (listed (fst (snd (reassign_kmers ex_templates_prefix ex_bests ex_Score
                                 ex_lengths_prefix ex_qseq_fw ex_qseq_rc))) 0)"
proof -
  have f: "fst (snd (fw_scan kmers_hit ex_templates ex_bests ex_Score ex_qseq_fw)) = [0, 7]"
    by code_simp
  have r: "fst (rc_scan kmers_hit ex_templates ex_bests ex_Score ex_lengths ex_qseq_fw ex_qseq_rc)
             = [0, 0]"
    by code_simp
  have p: "fst (prefix_scan kmers_hit ex_templates_prefix ex_bests ex_Score ex_qseq_fw ex_qseq_rc)
             = [0, 6]"
    by code_simp
  have d: "DB_size ex_templates = 2" "prefix_len ex_templates = 0" "kmersize ex_templates = 2"
    "DB_size ex_templates_prefix = 2" "prefix_len ex_templates_prefix = 1"
    by (simp_all add: ex_templates_def ex_templates_prefix_def)
  have l: "int_at ex_lengths 1 = 8" "int_at ex_lengths_prefix 3 = 7"
    by (simp_all add: int_at_def ex_lengths_def ex_lengths_prefix_def)
  from C3_threshold_rule[OF ex_wf, of 1 ex_lengths ex_qseq_fw ex_qseq_rc]
    C3_threshold_rule[OF ex_wf_prefix, of 1 ex_lengths_prefix ex_qseq_fw ex_qseq_rc]
    ex_wf ex_wf_prefix
  show ?thesis by (simp add: f r p d l)
qed

text \<open>
  C3 as stated fails in prefix mode: template 1 has accumulated score 6 and
  \<open>template_lengths[1] = 5\<close>, yet the list returned is empty.
\<close>

theorem C3_prefix_threshold_counterexample:
  "prefix_len ex_templates_prefix = 1 \<and>
   fst (prefix_scan kmers_hit ex_templates_prefix ex_bests ex_Score ex_qseq_fw ex_qseq_rc) ! 1 = 6 \<and>
   int_at ex_lengths_prefix 1 = 5 \<and>
   reassign_kmers ex_templates_prefix ex_bests ex_Score ex_lengths_prefix ex_qseq_fw ex_qseq_rc =
     (0, [0, 1, 0, 0, 0, 0], [0, 0]) \<and>
   listed [0, 1, 0, 0, 0, 0] 0 = []"
  by code_simp

section \<open>Reassigning a template\<close>

text \<open>
  \<open>consensus2qseq\<close>: the characters of the consensus whose table entry is at most 4 are
  written, as nibbles, to the front of the destination, which is enlarged to \<open>len + 1\<close>
  when its size is below \<open>len\<close>; the count is stored and returned.  The structure
  \<open>Qseqs\<close> is declared outside the sources: the record holds the three fields the
  function uses.  \<open>len\<close> is the unsigned length of the consensus, never negative.
\<close>

record Qseqs =
  qs_size :: int
  qs_len :: int
  qs_seq :: "nat list"



text \<open>
  Modelled from the spec: the packer \<open>compDNA\<close>, the reverse complement \<open>rc_comp\<close>
  (section 4.1, \<open>rc(src) \<rightarrow> dst\<close>), the table of \<open>base2nibble_table\<close>, \<open>assem_rc\<close>,
  \<open>assemble_rc\<close>, \<open>fixVarOverflow\<close> and \<open>nameLoad\<close> are not among the sources.  Section
  2 of the specification gives the flow they serve: the consensus is converted to packed
  DNA and scanned, the candidates are popped by decreasing length, each candidate is
  loaded from the on-disk database and matched, and on a match the matrix is re-anchored
  and the statistics recomputed; section 6 has the name of the reassigned template
  delivered through \<open>nameLoad\<close>.  What the functions compute is left open: each is a
  field of an environment record, a function from the objects it is passed to the
  objects it writes.  The floating-point test of \<open>getExtendedFeatures\<close> and the
  sequence file \<open>seq_in\<close> are fields too.
\<close>

record rt_env =
  to2Bit :: "char \<Rightarrow> nat"
  compDNA :: "CompDNA \<Rightarrow> nat list \<Rightarrow> int \<Rightarrow> CompDNA"
  rc_comp :: "CompDNA \<Rightarrow> CompDNA \<Rightarrow> CompDNA"
  seq_in :: "int \<Rightarrow> nat \<Rightarrow> u64 list option"
  assem_rc :: "Assem \<Rightarrow> Assem"
  assemble_rc :: "AssemInfo \<Rightarrow> Assem \<Rightarrow> AssemInfo \<times> Assem"
  fixVarOverflow :: "Assem \<Rightarrow> Assembly list \<Rightarrow> nat \<Rightarrow> int \<Rightarrow> Assem"
  highVar_lt :: "Assem \<Rightarrow> nat \<Rightarrow> nat \<Rightarrow> bool"
  nameLoad :: "Qseqs \<Rightarrow> int \<Rightarrow> Qseqs"

text \<open>
  The function statics of \<open>reassign_template\<close>, together with those of
  \<open>getExtendedFeatures\<close>, and what a call leaves behind: the consensus and the matrix,
  the two buffers of the caller, and the statics.  A call either returns a template id
  or exits on a corrupted sequence file.
\<close>

record rt_static =
  bestTemplates :: "int list"
  Score :: "int list"
  seq_indexes :: "int list"
  name_indexes :: "int list"
  qseq_comp :: CompDNA
  qseq_rc_comp :: CompDNA
  ef_vars :: ef_static
















subsection \<open>A call in which no candidate matches\<close>





text \<open>
  \<open>reassign_heapify\<close> writes above the count slot only, so each pop from a heap that is
  not empty takes the count down by one, and a heap with count \<open>n\<close> reports empty at
  pop \<open>n + 1\<close> at the latest.  \<open>pops_all_fail n\<close>: every candidate returned by the first
  \<open>n\<close> pops is loaded and fails to match (a pop that returns 0 ends the loop).
\<close>

lemma int_at_update_other:
  "i \<noteq> j \<Longrightarrow> int_at (xs[i := v]) (int j) = int_at xs (int j)"
  by (simp add: int_at_def)

















end
